theory Spec2Isabelle
  imports Main "HOL-Library.Word"
begin

unbundle bit_operations_syntax

section \<open>Python primitives used by img2track.py\<close>

text \<open>
  Python integers are unbounded and are modelled as \<open>int\<close>. The elements of a
  \<open>bytearray\<close> are 8-bit words. Every exception the program can raise is a value
  of \<open>error\<close>; a computation that may raise returns \<open>error + 'a\<close>.
\<close>

type_synonym byte = "8 word"

datatype error =
    Error_no_space             \<comment> \<open>\<open>Error('Not enough space in track to store pattern.')\<close>\<close>
  | BadError_not_sequential    \<comment> \<open>\<open>BadError('Pattern numbers not sequential.')\<close>\<close>
  | BadError_no_empty_entry    \<comment> \<open>\<open>BadError('No empty entry in program info.')\<close>\<close>
  | Exception_two_bytes        \<comment> \<open>\<open>Exception('num larger than two bytes')\<close>\<close>
  | ValueError
  | IndexError
  | TypeError

subsection \<open>Decimal and hexadecimal text\<close>

definition digit_char :: "nat \<Rightarrow> char" where
  "digit_char n = char_of (of_char CHR ''0'' + n)"

text \<open>The decimal digits of a natural number, most significant first (\<open>str(n)\<close>).\<close>

fun digits10 :: "nat \<Rightarrow> string" where
  "digits10 n = (if n < 10 then [digit_char n] else digits10 (n div 10) @ [digit_char (n mod 10)])"

declare digits10.simps [simp del]

definition str_int :: "int \<Rightarrow> string" where
  "str_int n = (if n < 0 then CHR ''-'' # digits10 (nat (- n)) else digits10 (nat n))"

text \<open>
  \<open>'%0*d' % (width, num)\<close>: zero-padded to at least \<open>width\<close> characters, the sign
  first; a negative \<open>width\<close> means left-justified in \<open>-width\<close> columns, padded with
  blanks.
\<close>

definition format_0d :: "int \<Rightarrow> int \<Rightarrow> string" where
  "format_0d width num =
     (if width < 0 then
        str_int num @ replicate (nat (- width) - length (str_int num)) CHR '' ''
      else if num < 0 then
        CHR ''-'' # replicate (nat width - 1 - length (digits10 (nat (- num)))) CHR ''0''
          @ digits10 (nat (- num))
      else replicate (nat width - length (digits10 (nat num))) CHR ''0'' @ digits10 (nat num))"

text \<open>\<open>'%02X' % b\<close> for a byte value \<open>b\<close>.\<close>

definition hex_char :: "nat \<Rightarrow> char" where
  "hex_char n = (if n < 10 then digit_char n else char_of (of_char CHR ''A'' + (n - 10)))"

definition format_02X :: "byte \<Rightarrow> string" where
  "format_02X b = [hex_char (unat b div 16), hex_char (unat b mod 16)]"

text \<open>\<open>ord(digit) - ord('0')\<close>, also the value of a decimal digit.\<close>

definition digit_of_char :: "char \<Rightarrow> int" where
  "digit_of_char digit = of_char digit - of_char CHR ''0''"

definition is_digit :: "char \<Rightarrow> bool" where
  "is_digit c = (of_char CHR ''0'' \<le> (of_char c :: int) \<and> (of_char c :: int) \<le> of_char CHR ''9'')"

text \<open>
  \<open>int(s)\<close> on the strings the program passes to it: characters out of
  \<open>0-9A-F\<close>. A string of decimal digits is its value, anything else raises
  \<open>ValueError\<close>.
\<close>

definition py_int :: "string \<Rightarrow> error + int" where
  "py_int s =
     (if s \<noteq> [] \<and> list_all is_digit s
      then Inr (foldl (\<lambda>acc c. 10 * acc + digit_of_char c) 0 s)
      else Inl ValueError)"

subsection \<open>Sequences\<close>

text \<open>
  Python's resolution of a slice \<open>[start:stop]\<close> on a sequence of length \<open>n\<close>:
  a negative index counts from the end, and both ends are clamped to \<open>0..n\<close>.
\<close>

definition clamp_index :: "nat \<Rightarrow> int \<Rightarrow> nat" where
  "clamp_index n i = (if i < 0 then nat (max (i + int n) 0) else nat (min i (int n)))"

definition getslice :: "'a list \<Rightarrow> int \<Rightarrow> int \<Rightarrow> 'a list" where
  "getslice xs start stop =
     (let lo = clamp_index (length xs) start; hi = clamp_index (length xs) stop
      in take (hi - lo) (drop lo xs))"

text \<open>
  Slice assignment \<open>xs[start:stop] = seq\<close>: the slice is replaced by \<open>seq\<close>,
  whatever their lengths; an empty slice (\<open>stop\<close> before \<open>start\<close>) makes it an
  insertion at \<open>start\<close>.
\<close>

definition setslice :: "'a list \<Rightarrow> int \<Rightarrow> int \<Rightarrow> 'a list \<Rightarrow> 'a list" where
  "setslice xs start stop seq =
     (let lo = clamp_index (length xs) start; hi = clamp_index (length xs) stop
      in take lo xs @ seq @ drop (max lo hi) xs)"

text \<open>Indexing \<open>xs[i]\<close>: negative indices count from the end, out of range raises.\<close>

definition getitem :: "'a list \<Rightarrow> int \<Rightarrow> error + 'a" where
  "getitem xs i =
     (if 0 \<le> i \<and> i < int (length xs) then Inr (xs ! nat i)
      else if i < 0 \<and> - int (length xs) \<le> i then Inr (xs ! nat (i + int (length xs)))
      else Inl IndexError)"

text \<open>\<open>bytearray(ints)\<close>: every element must be in \<open>range(256)\<close>.\<close>

definition bytearray :: "int list \<Rightarrow> error + byte list" where
  "bytearray xs =
     (if list_all (\<lambda>x. 0 \<le> x \<and> x < 256) xs then Inr (map word_of_int xs) else Inl ValueError)"

section \<open>The BCD and nibble codec\<close>

definition to_bcd :: "int \<Rightarrow> int \<Rightarrow> int list" where
  "to_bcd num width = map digit_of_char (format_0d width num)"

text \<open>
  \<open>pack_nibbles\<close> reads the padded list at \<open>i\<close> and \<open>i + 1\<close> for
  \<open>i = 0, 2, 4, \<dots>\<close> below the original length, which are the consecutive pairs of
  the padded list.
\<close>

fun nibble_pairs :: "int list \<Rightarrow> int list" where
  "nibble_pairs (hi # lo # rest) = (push_bit 4 hi + lo) # nibble_pairs rest"
| "nibble_pairs _ = []"

definition pack_nibbles :: "int list \<Rightarrow> error + byte list" where
  "pack_nibbles nibbles =
     bytearray (nibble_pairs (replicate (length nibbles mod 2) 0 @ nibbles))"

definition two_bytes :: "int \<Rightarrow> error + byte list" where
  "two_bytes num =
     (if 0 \<le> num \<and> num < push_bit 16 1 then bytearray [drop_bit 8 num, num AND 255]
      else Inl Exception_two_bytes)"

definition program_info :: "int \<Rightarrow> int \<Rightarrow> int \<Rightarrow> int \<Rightarrow> error + byte list" where
  "program_info offset rows stitches pattern_num =
     (let digits = to_bcd rows 3 @ to_bcd stitches 3 @ to_bcd pattern_num 4
      in case two_bytes offset of
           Inl e \<Rightarrow> Inl e
         | Inr word \<Rightarrow> (case pack_nibbles digits of
                          Inl e \<Rightarrow> Inl e
                        | Inr packed \<Rightarrow> Inr (word @ packed)))"

section \<open>The track memory model\<close>

text \<open>
  A \<open>Track\<close> object holds the constants set by \<open>__init__\<close>, which never change,
  and the mutable \<open>bytearray\<close> \<open>data\<close>. The constants are definitions, the buffer
  is the state. A method that mutates the buffer and may raise returns the outcome
  together with the buffer as the exception leaves it.
\<close>

record track =
  data :: "byte list"

definition track_size :: int where
  "track_size = 0x800"

definition pattern_offset :: int where
  "pattern_offset = 0x0120"

definition available_loc :: int where
  "available_loc = 0x700"

definition pgm_info_end_loc :: int where
  "pgm_info_end_loc = 0x710"

definition pgm_info_size :: int where
  "pgm_info_size = 7"

definition initial_pattern_number :: int where
  "initial_pattern_number = 901"

definition set_bytes :: "track \<Rightarrow> int \<Rightarrow> byte list \<Rightarrow> track" where
  "set_bytes t location seq =
     t\<lparr>data := setslice (data t) location (location + int (length seq)) seq\<rparr>"

definition get_word :: "track \<Rightarrow> int \<Rightarrow> error + int" where
  "get_word t loc =
     (case getitem (data t) loc of
        Inl e \<Rightarrow> Inl e
      | Inr hi \<Rightarrow> (case getitem (data t) (loc + 1) of
                    Inl e \<Rightarrow> Inl e
                  | Inr lo \<Rightarrow> Inr (push_bit 8 (uint hi) + uint lo)))"

definition set_word :: "track \<Rightarrow> int \<Rightarrow> int \<Rightarrow> (error + unit) \<times> track" where
  "set_word t loc word =
     (case two_bytes word of
        Inl e \<Rightarrow> (Inl e, t)
      | Inr bytes \<Rightarrow> (Inr (), t\<lparr>data := setslice (data t) loc (loc + 2) bytes\<rparr>))"

definition available_offset :: "track \<Rightarrow> error + int" where
  "available_offset t = get_word t available_loc"

definition set_available :: "track \<Rightarrow> int \<Rightarrow> (error + unit) \<times> track" where
  "set_available t offset = set_word t available_loc offset"

definition pgm_info_end :: "track \<Rightarrow> error + int" where
  "pgm_info_end t = get_word t pgm_info_end_loc"

definition set_pgm_info_end :: "track \<Rightarrow> int \<Rightarrow> (error + unit) \<times> track" where
  "set_pgm_info_end t offset = set_word t pgm_info_end_loc offset"

definition free_mem :: "track \<Rightarrow> error + int" where
  "free_mem t =
     (case pgm_info_end t of
        Inl e \<Rightarrow> Inl e
      | Inr info \<Rightarrow> (case available_offset t of
                      Inl e \<Rightarrow> Inl e
                    | Inr avail \<Rightarrow> Inr (info - avail)))"

text \<open>
  \<open>pat_num\<close>: the format \<open>'%02X' * 7\<close> needs exactly seven arguments (a shorter
  slice raises \<open>TypeError\<close>); \<open>nibbles[-3:]\<close> are the last three characters.
\<close>

definition pat_num :: "track \<Rightarrow> int \<Rightarrow> error + int" where
  "pat_num t loc =
     (let entry = getslice (data t) loc (loc + pgm_info_size)
      in if int (length entry) \<noteq> pgm_info_size then Inl TypeError
         else (let nibbles = concat (map format_02X entry)
               in py_int (getslice nibbles (- 3) (int (length nibbles)))))"

definition add_pgm_entry :: "track \<Rightarrow> int \<Rightarrow> (error + unit) \<times> track" where
  "add_pgm_entry t pat_number =
     (case program_info 0 0 0 pat_number of
        Inl e \<Rightarrow> (Inl e, t)
      | Inr info \<Rightarrow> (case pgm_info_end t of
                      Inl e \<Rightarrow> (Inl e, t)
                    | Inr offset \<Rightarrow>
                        set_pgm_info_end (set_bytes t (- offset) info) (offset - int (length info))))"

text \<open>\<open>Track.__init__\<close>: the outcome and the track it builds.\<close>

definition Track_init :: "(error + unit) \<times> track" where
  "Track_init =
     (case set_available \<lparr>data = replicate (nat track_size) 0\<rparr> pattern_offset of
        (Inl e, t) \<Rightarrow> (Inl e, t)
      | (Inr _, t1) \<Rightarrow> (case set_pgm_info_end t1 track_size of
                         (Inl e, t) \<Rightarrow> (Inl e, t)
                       | (Inr _, t2) \<Rightarrow> add_pgm_entry t2 initial_pattern_number))"

section \<open>The pattern allocator\<close>

text \<open>
  The \<open>for loc in range(0, info_end, pgm_info_size)\<close> loop of \<open>add_pattern\<close>, from
  the current \<open>loc\<close> and \<open>pattern_num\<close>: \<open>break\<close> returns both, the \<open>else\<close>
  branch of the loop raises.
\<close>

function find_empty_entry :: "track \<Rightarrow> int \<Rightarrow> int \<Rightarrow> int \<Rightarrow> error + int \<times> int" where
  "find_empty_entry t info_end loc pattern_num =
     (if loc < info_end then
        (case pat_num t loc of
           Inl e \<Rightarrow> Inl e
         | Inr n \<Rightarrow>
             if n \<noteq> pattern_num then Inl BadError_not_sequential
             else (case get_word t loc of
                     Inl e \<Rightarrow> Inl e
                   | Inr w \<Rightarrow>
                       if w = 0 then Inr (loc, pattern_num)
                       else find_empty_entry t info_end (loc + pgm_info_size) (pattern_num + 1)))
      else Inl BadError_no_empty_entry)"
  by pat_completeness auto
termination
  by (relation "measure (\<lambda>(t, info_end, loc, pattern_num). nat (info_end - loc))")
     (auto simp: pgm_info_size_def)

declare find_empty_entry.simps [simp del]

definition add_pattern :: "track \<Rightarrow> byte list \<Rightarrow> int \<Rightarrow> int \<Rightarrow> (error + int) \<times> track" where
  "add_pattern t pattern nrows nstitches =
     (case free_mem t of
        Inl e \<Rightarrow> (Inl e, t)
      | Inr free \<Rightarrow>
          if int (length pattern) > free then (Inl Error_no_space, t)
          else (case pgm_info_end t of
            Inl e \<Rightarrow> (Inl e, t)
          | Inr info_offset \<Rightarrow>
              (case find_empty_entry t (track_size - info_offset) 0 initial_pattern_number of
                 Inl e \<Rightarrow> (Inl e, t)
               | Inr (loc, pattern_num) \<Rightarrow>
                   (case available_offset t of
                      Inl e \<Rightarrow> (Inl e, t)
                    | Inr offset \<Rightarrow>
                        (case program_info offset nrows nstitches pattern_num of
                           Inl e \<Rightarrow> (Inl e, t)
                         | Inr info \<Rightarrow>
                             (let t1 = set_bytes t loc info;
                                  offset2 = offset + int (length pattern);
                                  t2 = set_bytes t1 (- offset2) pattern
                              in case set_available t2 (offset2 + 1) of
                                   (Inl e, t3) \<Rightarrow> (Inl e, t3)
                                 | (Inr _, t3) \<Rightarrow>
                                     if loc + int (length info) = track_size - info_offset then
                                       (case add_pgm_entry t3 (pattern_num + 1) of
                                          (Inl e, t4) \<Rightarrow> (Inl e, t4)
                                        | (Inr _, t4) \<Rightarrow> (Inr pattern_num, t4))
                                     else (Inr pattern_num, t3)))))))"

section \<open>The sector writer\<close>

text \<open>
  \<open>Track.write\<close> (here \<open>track_write\<close>) calls \<open>write_file\<close> four times. It returns the files
  written, in order, as pairs of path and contents, and the exception that stopped
  it, if any: the two \<open>.dat\<close> files are on disc before the sector identifier is
  computed. \<open>os.path.join\<close> belongs to the platform and is a parameter.
\<close>

definition track_write :: "(string \<Rightarrow> string \<Rightarrow> string) \<Rightarrow> track \<Rightarrow> string \<Rightarrow> int
    \<Rightarrow> (string \<times> byte list) list \<times> error option" where
  "track_write path_join t sector_path track_num =
     (let sector_num = (track_num - 1) * 2;
          halfsize = track_size div 2;
          sector0path = path_join sector_path (format_0d 2 sector_num);
          sector1path = path_join sector_path (format_0d 2 (sector_num + 1));
          dat_files =
            [(sector0path @ ''.dat'', getslice (data t) 0 halfsize),
             (sector1path @ ''.dat'', getslice (data t) halfsize (int (length (data t))))]
      in case pack_nibbles (to_bcd track_num 2) of
           Inl e \<Rightarrow> (dat_files, Some e)
         | Inr packed \<Rightarrow>
             (let sector_id = packed @ replicate 11 0
              in (dat_files @ [(sector0path @ ''.id'', sector_id), (sector1path @ ''.id'', sector_id)],
                  None)))"

section \<open>The image encoder\<close>

text \<open>
  \<open>encode_image\<close> from \<open>imgdata = img.getdata()\<close> on: the pixels of the resized
  black and white image in row-major order, with the final \<open>nrows\<close> and
  \<open>nstitches\<close>. Bits are the characters \<open>0\<close> and \<open>1\<close>, as in the source.
\<close>

definition pixel_bit :: "int \<Rightarrow> char" where
  "pixel_bit pixel = (if pixel > 0 then CHR ''0'' else CHR ''1'')"

text \<open>
  The loop \<open>for irow in range(0, len(imgbits), nstitches)\<close> from the current
  \<open>irow\<close>, for a positive step.
\<close>

function pad_rows :: "string \<Rightarrow> string \<Rightarrow> int \<Rightarrow> int \<Rightarrow> string" where
  "pad_rows imgbits rowpadding nstitches irow =
     (if 0 < nstitches \<and> irow < int (length imgbits) then
        rowpadding @ getslice imgbits irow (irow + nstitches)
          @ pad_rows imgbits rowpadding nstitches (irow + nstitches)
      else [])"
  by pat_completeness auto
termination
  by (relation "measure (\<lambda>(imgbits, rowpadding, nstitches, irow). nat (int (length imgbits) - irow))")
     auto

declare pad_rows.simps [simp del]

text \<open>\<open>int(s, 2)\<close> on a string of binary digits.\<close>

definition py_int2 :: "string \<Rightarrow> error + int" where
  "py_int2 s =
     (if s \<noteq> [] \<and> list_all (\<lambda>c. c = CHR ''0'' \<or> c = CHR ''1'') s
      then Inr (foldl (\<lambda>acc c. 2 * acc + (if c = CHR ''1'' then 1 else 0)) 0 s)
      else Inl ValueError)"

text \<open>\<open>[int(bits[i:i + 8], 2) for i in range(0, len(bits), 8)]\<close> from the current \<open>i\<close>.\<close>

function bit_bytes :: "string \<Rightarrow> int \<Rightarrow> error + int list" where
  "bit_bytes bits i =
     (if i < int (length bits) then
        (case py_int2 (getslice bits i (i + 8)) of
           Inl e \<Rightarrow> Inl e
         | Inr b \<Rightarrow> (case bit_bytes bits (i + 8) of
                       Inl e \<Rightarrow> Inl e
                     | Inr bs \<Rightarrow> Inr (b # bs)))
      else Inr [])"
  by pat_completeness auto
termination
  by (relation "measure (\<lambda>(bits, i). nat (int (length bits) - i))") auto

declare bit_bytes.simps [simp del]

definition encode_image :: "int list \<Rightarrow> int \<Rightarrow> int \<Rightarrow> error + byte list \<times> int \<times> int" where
  "encode_image imgdata nrows nstitches =
     (let imgbits = map pixel_bit imgdata;
          rowpadding = replicate (nat ((- nstitches) mod 4)) CHR ''0''
      in if nstitches = 0 then Inl ValueError   \<comment> \<open>\<open>range\<close> with step 0\<close>
         else
           (let bits0 = pad_rows imgbits rowpadding nstitches 0;
                bits = replicate (nat ((- int (length bits0)) mod 8)) CHR ''0'' @ bits0
            in case bit_bytes bits 0 of
                 Inl e \<Rightarrow> Inl e
               | Inr imgbytes \<Rightarrow>
                   (let memo = replicate (nat ((nrows + 1) div 2)) 0
                    in case bytearray (imgbytes @ memo) of
                         Inl e \<Rightarrow> Inl e
                       | Inr pattern \<Rightarrow> Inr (pattern, nrows, nstitches))))"

section \<open>Notions of the specification\<close>

text \<open>
  The definitions of this section are not code of the program. They state what the
  specification compares the program with: the number of decimal digits of a number
  and the value of a digit sequence, the structured decoding of a directory entry,
  and the bit layout of an encoded image.
\<close>

fun digitcount :: "nat \<Rightarrow> nat" where
  "digitcount n = (if n < 10 then 1 else Suc (digitcount (n div 10)))"

declare digitcount.simps [simp del]

definition digits_value :: "int list \<Rightarrow> int" where
  "digits_value ds = foldl (\<lambda>acc d. 10 * acc + d) 0 ds"

definition hi_nibble :: "byte \<Rightarrow> int" where
  "hi_nibble b = uint b div 16"

definition lo_nibble :: "byte \<Rightarrow> int" where
  "lo_nibble b = uint b mod 16"

definition bcd_byte :: "byte \<Rightarrow> bool" where
  "bcd_byte b = (hi_nibble b \<le> 9 \<and> lo_nibble b \<le> 9)"

text \<open>
  A directory entry is seven bytes: a big-endian offset, then ten BCD digits, three
  for the rows, three for the stitches and four for the pattern number.
\<close>

definition entry_offset :: "byte list \<Rightarrow> int" where
  "entry_offset e = 256 * uint (e ! 0) + uint (e ! 1)"

definition entry_rows :: "byte list \<Rightarrow> int" where
  "entry_rows e = 100 * hi_nibble (e ! 2) + 10 * lo_nibble (e ! 2) + hi_nibble (e ! 3)"

definition entry_stitches :: "byte list \<Rightarrow> int" where
  "entry_stitches e = 100 * lo_nibble (e ! 3) + 10 * hi_nibble (e ! 4) + lo_nibble (e ! 4)"

definition entry_pattern_number :: "byte list \<Rightarrow> int" where
  "entry_pattern_number e =
     1000 * hi_nibble (e ! 5) + 100 * lo_nibble (e ! 5) + 10 * hi_nibble (e ! 6) + lo_nibble (e ! 6)"

text \<open>
  Entries follow each other from the start of the buffer, so the entry of pattern
  number \<open>n\<close> is the one at \<open>(n - 901) * 7\<close>.
\<close>

definition entry_loc :: "int \<Rightarrow> int" where
  "entry_loc n = (n - initial_pattern_number) * pgm_info_size"

definition directory_entry :: "track \<Rightarrow> int \<Rightarrow> byte list" where
  "directory_entry t n = getslice (data t) (entry_loc n) (entry_loc n + pgm_info_size)"

text \<open>
  The encoded image of a bitmap given as its list of rows: a pixel is on when its
  intensity is not positive.
\<close>

definition row_padding :: "nat \<Rightarrow> nat" where
  "row_padding stitches = (4 - stitches mod 4) mod 4"

definition padded_rows :: "int list list \<Rightarrow> nat \<Rightarrow> bool list" where
  "padded_rows bitmap stitches =
     concat (map (\<lambda>row. replicate (row_padding stitches) False @ map (\<lambda>pixel. \<not> pixel > 0) row) bitmap)"

definition byte_align :: "bool list \<Rightarrow> bool list" where
  "byte_align bs = replicate ((8 - length bs mod 8) mod 8) False @ bs"

definition bits_value :: "bool list \<Rightarrow> nat" where
  "bits_value bs = foldl (\<lambda>acc b. 2 * acc + (if b then 1 else 0)) 0 bs"

function octets :: "bool list \<Rightarrow> nat list" where
  "octets bs = (if bs = [] then [] else bits_value (take 8 bs) # octets (drop 8 bs))"
  by pat_completeness auto
termination
  by (relation "measure length") auto

declare octets.simps [simp del]

definition encoded_bitmap :: "int list list \<Rightarrow> nat \<Rightarrow> byte list" where
  "encoded_bitmap bitmap stitches =
     map of_nat (octets (byte_align (padded_rows bitmap stitches)))
       @ replicate ((length bitmap + 1) div 2) 0"

section \<open>Auxiliary notions\<close>

text \<open>Overwriting a list in place from position \<open>p\<close>.\<close>

definition overwrite :: "'a list \<Rightarrow> nat \<Rightarrow> 'a list \<Rightarrow> 'a list" where
  "overwrite xs p seq = take p xs @ seq @ drop (p + length seq) xs"

text \<open>Two bytes, most significant first.\<close>

definition word_bytes :: "int \<Rightarrow> byte list" where
  "word_bytes w = [word_of_int (w div 256), word_of_int (w mod 256)]"

text \<open>The buffer of a new track, as the writes of \<open>__init__\<close> leave it.\<close>

definition fresh_data :: "byte list" where
  "fresh_data =
     overwrite (overwrite (overwrite (overwrite (replicate 2048 0) 1792 [1, 32]) 1808 [8, 0])
       0 [0, 0, 0, 0, 0, 9, 1]) 1808 [7, 249]"

text \<open>
  The buffer after \<open>add_pattern\<close> has stored the entry \<open>info\<close> at \<open>loc\<close>, the
  pattern below the offset \<open>avail\<close> and the new offset of the available memory.
\<close>

definition stored :: "byte list \<Rightarrow> int \<Rightarrow> byte list \<Rightarrow> int \<Rightarrow> byte list \<Rightarrow> byte list" where
  "stored d loc info avail pattern =
     overwrite
       (overwrite (overwrite d (nat loc) info) (nat (2048 - (avail + int (length pattern)))) pattern)
       1792 (word_bytes (avail + int (length pattern) + 1))"

text \<open>The entry that \<open>program_info\<close> composes when every field fits its width.\<close>

definition entry_bytes :: "int \<Rightarrow> int \<Rightarrow> int \<Rightarrow> int \<Rightarrow> byte list" where
  "entry_bytes offset rows stitches n =
     [word_of_int (offset div 256), word_of_int (offset mod 256),
      word_of_int (16 * (rows div 100) + rows div 10 mod 10),
      word_of_int (16 * (rows mod 10) + stitches div 100),
      word_of_int (16 * (stitches div 10 mod 10) + stitches mod 10),
      word_of_int (16 * (n div 1000) + n div 100 mod 10),
      word_of_int (16 * (n div 10 mod 10) + n mod 10)]"

text \<open>The empty entry for pattern number \<open>n\<close>.\<close>

definition empty_entry :: "int \<Rightarrow> byte list" where
  "empty_entry n =
     [0, 0, 0, 0, 0, word_of_int (16 * (n div 1000) + n div 100 mod 10),
      word_of_int (16 * (n div 10 mod 10) + n mod 10)]"

text \<open>
  The buffer after \<open>add_pgm_entry\<close> has appended the empty entry for \<open>n\<close> to a
  directory that ended at the offset \<open>info_offset\<close>.
\<close>

definition extended :: "byte list \<Rightarrow> int \<Rightarrow> int \<Rightarrow> byte list" where
  "extended d info_offset n =
     overwrite (overwrite d (nat (2048 - info_offset)) (empty_entry n))
       1808 (word_bytes (info_offset - 7))"

text \<open>The character of a bit.\<close>

definition bit_char :: "bool \<Rightarrow> char" where
  "bit_char b = (if b then CHR ''1'' else CHR ''0'')"

text \<open>
  \<open>os.path.join\<close> of the POSIX flavour of Python's library, for two components;
  it stands for the platform's function where a concrete one is needed.
\<close>

definition posix_join :: "string \<Rightarrow> string \<Rightarrow> string" where
  "posix_join a b =
     (if take 1 b = ''/'' then b
      else if a = [] \<or> drop (length a - 1) a = ''/'' then a @ b
      else a @ ''/'' @ b)"

text \<open>The last \<open>w\<close> decimal digits of a number.\<close>

fun fixed_digits :: "nat \<Rightarrow> nat \<Rightarrow> int list" where
  "fixed_digits 0 n = []"
| "fixed_digits (Suc w) n = fixed_digits w (n div 10) @ [int (n mod 10)]"

text \<open>
  Adding patterns one after the other, as long as no call raises: the pattern
  numbers returned and the track left by the last call.
\<close>

fun add_patterns :: "track \<Rightarrow> (byte list \<times> int \<times> int) list \<Rightarrow> (error + int list) \<times> track" where
  "add_patterns t [] = (Inr [], t)"
| "add_patterns t ((pattern, nrows, nstitches) # rest) =
     (case add_pattern t pattern nrows nstitches of
        (Inl e, t1) \<Rightarrow> (Inl e, t1)
      | (Inr num, t1) \<Rightarrow>
          (case add_patterns t1 rest of
             (Inl e, t2) \<Rightarrow> (Inl e, t2)
           | (Inr nums, t2) \<Rightarrow> (Inr (num # nums), t2)))"

text \<open>
  A track whose directory lists \<open>n\<close> patterns: the buffer has its length, the
  offset of the available memory is at least \<open>pattern_offset\<close>, the directory holds
  \<open>n + 1\<close> entries, the first \<open>n\<close> of them read as the pattern numbers from 901
  on and are not empty, and the last is the empty entry of the next number.
\<close>

definition directory_ok :: "track \<Rightarrow> nat \<Rightarrow> bool" where
  "directory_ok t n =
     (length (data t) = 2048
      \<and> (case available_offset t of Inl e \<Rightarrow> False | Inr avail \<Rightarrow> pattern_offset \<le> avail)
      \<and> pgm_info_end t = Inr (track_size - pgm_info_size * (int n + 1))
      \<and> list_all
          (\<lambda>i. pat_num t (entry_loc (initial_pattern_number + int i))
                 = Inr (initial_pattern_number + int i)
               \<and> get_word t (entry_loc (initial_pattern_number + int i)) \<noteq> Inr 0)
          [0..<n]
      \<and> directory_entry t (initial_pattern_number + int n)
          = empty_entry (initial_pattern_number + int n))"

section \<open>Properties of the codec\<close>

lemma of_char_char_of_nat: "(of_char (char_of (n::nat)) :: int) = int (n mod 256)"
  by (metis of_char_of of_nat_of_char)

lemma ord_digit_char: "n < 10 \<Longrightarrow> digit_of_char (digit_char n) = int n"
  by (simp add: digit_of_char_def digit_char_def of_char_char_of_nat)

lemma length_digits10: "length (digits10 n) = digitcount n"
  by (induction n rule: digits10.induct) (subst digits10.simps, subst digitcount.simps, simp)

lemma digitcount_pos: "0 < digitcount n"
  by (subst digitcount.simps) simp

lemma digitcount_bounds: "n < 10 ^ digitcount n \<and> (0 < n \<longrightarrow> 10 ^ (digitcount n - 1) \<le> n)"
proof (induction n rule: digitcount.induct)
  case (1 n)
  show ?case
  proof (cases "n < 10")
    case True
    then show ?thesis by (subst (1 2) digitcount.simps) simp
  next
    case False
    with 1 have ih: "n div 10 < 10 ^ digitcount (n div 10)"
      "10 ^ (digitcount (n div 10) - 1) \<le> n div 10" by auto
    have dc: "digitcount n = Suc (digitcount (n div 10))"
      using False by (subst digitcount.simps) simp
    from ih(1) have "n < 10 * 10 ^ digitcount (n div 10)" by simp
    moreover from ih(2) have "10 * 10 ^ (digitcount (n div 10) - 1) \<le> n" by simp
    moreover have "(10::nat) * 10 ^ (digitcount (n div 10) - 1) = 10 ^ digitcount (n div 10)"
      using digitcount_pos [of "n div 10"] by (cases "digitcount (n div 10)") simp_all
    ultimately show ?thesis by (simp add: dc)
  qed
qed

lemma bcd_digits10_range:
  "list_all (\<lambda>d. 0 \<le> d \<and> d \<le> 9) (map digit_of_char (digits10 n))"
proof (induction n rule: digits10.induct)
  case (1 n)
  show ?case
  proof (cases "n < 10")
    case True
    then show ?thesis using ord_digit_char [of n] by (subst digits10.simps) simp
  next
    case False
    then show ?thesis using 1 ord_digit_char [of "n mod 10"] by (subst digits10.simps) simp
  qed
qed

lemma bcd_digits10_value: "digits_value (map digit_of_char (digits10 n)) = int n"
proof (induction n rule: digits10.induct)
  case (1 n)
  show ?case
  proof (cases "n < 10")
    case True
    then show ?thesis
      using ord_digit_char [of n] by (subst digits10.simps) (simp add: digits_value_def)
  next
    case False
    then show ?thesis using 1 ord_digit_char [of "n mod 10"]
      by (subst digits10.simps) (simp add: digits_value_def zdiv_int zmod_int)
  qed
qed

lemma digits_value_zeros: "digits_value (replicate k 0 @ ds) = digits_value ds"
  by (induction k) (simp_all add: digits_value_def)

lemma to_bcd_nonneg:
  "0 \<le> num \<Longrightarrow> 0 \<le> width \<Longrightarrow>
   to_bcd num width =
     replicate (nat width - digitcount (nat num)) 0 @ map digit_of_char (digits10 (nat num))"
  by (simp add: to_bcd_def format_0d_def length_digits10 digit_of_char_def)

text \<open>
  Claim C10. For non-negative \<open>n\<close> and \<open>w\<close>, \<open>to_bcd(n, w)\<close> returns (it is a total
  function: it never raises) a list of exactly \<open>max(w, digitcount(n))\<close> digits, each
  between 0 and 9, whose decimal value is \<open>n\<close>: nothing is truncated when \<open>n\<close> has
  more than \<open>w\<close> digits, and the list is padded with zeros on the left up to \<open>w\<close>
  digits otherwise.
\<close>

theorem to_bcd_digits:
  assumes "0 \<le> n" and "0 \<le> w"
  shows "length (to_bcd n w) = max (nat w) (digitcount (nat n))
       \<and> list_all (\<lambda>d. 0 \<le> d \<and> d \<le> 9) (to_bcd n w)
       \<and> digits_value (to_bcd n w) = n
       \<and> to_bcd n w = replicate (nat w - digitcount (nat n)) 0 @ to_bcd n 0"
proof -
  have eq: "to_bcd n w =
      replicate (nat w - digitcount (nat n)) 0 @ map digit_of_char (digits10 (nat n))"
    using assms by (rule to_bcd_nonneg)
  have eq0: "to_bcd n 0 = map digit_of_char (digits10 (nat n))"
    using assms(1) by (simp add: to_bcd_nonneg)
  have "length (to_bcd n w) = max (nat w) (digitcount (nat n))"
    by (simp add: eq length_digits10)
  moreover have "list_all (\<lambda>d. 0 \<le> d \<and> d \<le> 9) (to_bcd n w)"
    using bcd_digits10_range [of "nat n"] by (auto simp: eq list_all_iff)
  moreover have "digits_value (to_bcd n w) = n"
    using assms bcd_digits10_value [of "nat n"] by (simp add: eq digits_value_zeros)
  ultimately show ?thesis using eq eq0 by simp
qed

theorem to_bcd_digits_witness:
  "(0::int) \<le> 1000 \<and> (0::int) \<le> 3
   \<and> length (to_bcd 1000 3) = max (nat 3) (digitcount (nat 1000))
   \<and> digits_value (to_bcd 1000 3) = 1000"
proof -
  have n: "(0::int) \<le> 1000" and w: "(0::int) \<le> 3" by simp_all
  show ?thesis using n w to_bcd_digits [OF n w] by blast
qed

section \<open>Reading and writing the buffer\<close>

lemma length_overwrite [simp]:
  "p + length seq \<le> length xs \<Longrightarrow> length (overwrite xs p seq) = length xs"
  by (simp add: overwrite_def)

lemma slice_overwrite_before:
  "i + n \<le> p \<Longrightarrow> p + length seq \<le> length xs \<Longrightarrow>
   take n (drop i (overwrite xs p seq)) = take n (drop i xs)"
proof -
  assume a: "i + n \<le> p" "p + length seq \<le> length xs"
  then have "take n (drop i (overwrite xs p seq)) = take n (drop i (take p xs))"
    by (simp add: overwrite_def)
  also have "\<dots> = take n (take (p - i) (drop i xs))" by (simp add: drop_take)
  also have "\<dots> = take n (drop i xs)" using a by (simp add: min_absorb1)
  finally show ?thesis .
qed

lemma slice_overwrite_after:
  "p + length seq \<le> i \<Longrightarrow> p + length seq \<le> length xs \<Longrightarrow>
   take n (drop i (overwrite xs p seq)) = take n (drop i xs)"
  by (simp add: overwrite_def min_def)

lemma slice_overwrite_inside:
  "p \<le> i \<Longrightarrow> i + n \<le> p + length seq \<Longrightarrow> p + length seq \<le> length xs \<Longrightarrow>
   take n (drop i (overwrite xs p seq)) = take n (drop (i - p) seq)"
  by (simp add: overwrite_def min_def)

lemma setslice_absolute:
  "0 \<le> loc \<Longrightarrow> nat loc + length seq \<le> length xs \<Longrightarrow>
   setslice xs loc (loc + int (length seq)) seq = overwrite xs (nat loc) seq"
  by (simp add: setslice_def overwrite_def clamp_index_def Let_def nat_add_distrib max_def min_def)

lemma setslice_from_end:
  assumes "loc < 0" and "nat (- loc) \<le> length xs" and "length seq < nat (- loc)"
  shows "setslice xs loc (loc + int (length seq)) seq = overwrite xs (length xs - nat (- loc)) seq"
proof -
  define m where "m = nat (- loc)"
  have loc: "loc = - int m" using assms(1) by (simp add: m_def)
  have m: "m \<le> length xs" "length seq < m" using assms by (simp_all add: m_def)
  have lo: "clamp_index (length xs) loc = length xs - m"
    using m by (simp add: clamp_index_def loc nat_diff_distrib)
  have "loc + int (length seq) + int (length xs) = int (length xs - m + length seq)"
    using m by (simp add: loc)
  then have hi: "clamp_index (length xs) (loc + int (length seq)) = length xs - m + length seq"
    using m by (simp add: clamp_index_def loc)
  show ?thesis
    unfolding setslice_def Let_def lo hi overwrite_def m_def [symmetric] by simp
qed

lemma getslice_absolute:
  assumes "0 \<le> loc" and "0 \<le> n" and "nat loc + nat n \<le> length xs"
  shows "getslice xs loc (loc + n) = take (nat n) (drop (nat loc) xs)"
proof -
  have le: "loc \<le> int (length xs)" "loc + n \<le> int (length xs)" using assms by linarith+
  have lo: "clamp_index (length xs) loc = nat loc"
    using assms le by (simp add: clamp_index_def min_absorb1)
  have hi: "clamp_index (length xs) (loc + n) = nat loc + nat n"
    using assms le by (simp add: clamp_index_def min_absorb1 nat_add_distrib)
  show ?thesis unfolding getslice_def Let_def lo hi by simp
qed

lemma two_bytes_ok:
  assumes "0 \<le> w" and "w < 65536"
  shows "two_bytes w = Inr [word_of_int (w div 256), word_of_int (w mod 256)]"
proof -
  have a: "drop_bit 8 w = w div 256" by (simp add: drop_bit_eq_div)
  have "w AND 255 = take_bit 8 w" by (simp add: take_bit_eq_mask mask_eq_exp_minus_1)
  then have b: "w AND 255 = w mod 256" by (simp add: take_bit_eq_mod)
  have c: "w div 256 < 256" using assms by simp
  have d: "0 \<le> w div 256" using assms by simp
  show ?thesis using assms c d by (simp add: two_bytes_def bytearray_def a b)
qed

lemma get_word_slice:
  assumes "0 \<le> loc" and "take 2 (drop (nat loc) (data t)) = [hi, lo]"
  shows "get_word t loc = Inr (256 * uint hi + uint lo)"
proof -
  have len: "nat loc + 2 \<le> length (data t)"
  proof (rule ccontr)
    assume "\<not> ?thesis"
    then have "length (take 2 (drop (nat loc) (data t))) < 2" by simp
    then show False by (simp add: assms(2))
  qed
  have "take 2 (drop (nat loc) (data t)) ! 0 = hi" "take 2 (drop (nat loc) (data t)) ! 1 = lo"
    by (simp_all add: assms(2))
  then have nth: "data t ! nat loc = hi" "data t ! (nat loc + 1) = lo"
    using len by simp_all
  have g0: "getitem (data t) loc = Inr hi"
    using assms(1) len nth by (simp add: getitem_def)
  have g1: "getitem (data t) (loc + 1) = Inr lo"
    using assms(1) len nth by (simp add: getitem_def nat_add_distrib)
  show ?thesis by (simp add: get_word_def g0 g1 push_bit_eq_mult)
qed

lemma word_of_two_bytes:
  assumes "0 \<le> w" and "w < 65536"
  shows "256 * uint (word_of_int (w div 256) :: byte) + uint (word_of_int (w mod 256) :: byte) = w"
proof -
  have "uint (word_of_int (w div 256) :: byte) = w div 256"
    using assms by (simp add: uint_word_of_int take_bit_eq_mod)
  moreover have "uint (word_of_int (w mod 256) :: byte) = w mod 256"
    by (simp add: uint_word_of_int take_bit_eq_mod)
  ultimately show ?thesis by simp
qed

section \<open>Writing at an offset from the end\<close>

text \<open>
  Claim C7, amended. For a 2048-byte buffer, a negative location \<open>loc\<close> with
  \<open>|loc| \<le> 2048\<close> and a sequence shorter than \<open>|loc|\<close>, \<open>set_bytes(loc, seq)\<close>
  writes \<open>seq\<close> so that the write starts \<open>|loc|\<close> bytes before the end of the buffer:
  \<open>seq\<close> occupies the positions from \<open>2048 - |loc|\<close> up to
  \<open>2048 - |loc| + len(seq)\<close>, every byte before and after them is unchanged, and
  the buffer keeps its length.
\<close>

theorem set_bytes_from_end:
  assumes "length (data t) = nat track_size"
    and "location < 0" and "- location \<le> track_size"
    and "int (length seq) < - location"
  shows "length (data (set_bytes t location seq)) = nat track_size
       \<and> getslice (data (set_bytes t location seq)) (track_size + location)
            (track_size + location + int (length seq)) = seq
       \<and> take (nat (track_size + location)) (data (set_bytes t location seq))
            = take (nat (track_size + location)) (data t)
       \<and> drop (nat (track_size + location) + length seq) (data (set_bytes t location seq))
            = drop (nat (track_size + location) + length seq) (data t)"
proof -
  define p where "p = nat (track_size + location)"
  have p: "p = length (data t) - nat (- location)" "p + length seq \<le> length (data t)"
    using assms by (simp_all add: p_def track_size_def)
  have eq: "data (set_bytes t location seq) = overwrite (data t) p seq"
    using assms p by (simp add: set_bytes_def setslice_from_end track_size_def)
  have "getslice (overwrite (data t) p seq) (track_size + location)
            (track_size + location + int (length seq)) = take (length seq) (drop p (overwrite (data t) p seq))"
    using assms p by (subst getslice_absolute) (simp_all add: p_def track_size_def)
  then have g: "getslice (overwrite (data t) p seq) (track_size + location)
            (track_size + location + int (length seq)) = seq"
    using p by (simp add: slice_overwrite_inside)
  have t: "take p (overwrite (data t) p seq) = take p (data t)"
    using p by (simp add: overwrite_def)
  have d: "drop (p + length seq) (overwrite (data t) p seq) = drop (p + length seq) (data t)"
    using p by (simp add: overwrite_def)
  show ?thesis unfolding eq p_def [symmetric] using g t d p assms(1) by simp
qed

theorem set_bytes_from_end_witness:
  "getslice (data (set_bytes \<lparr>data = replicate 2048 0\<rparr> (- 2) [1])) 2046 2047 = [1]
   \<and> length (data (set_bytes \<lparr>data = replicate 2048 0\<rparr> (- 2) [1])) = 2048"
  using set_bytes_from_end [of "\<lparr>data = replicate 2048 0\<rparr>" "- 2" "[1]"]
  by (simp add: track_size_def)

text \<open>
  The claim as stated puts \<open>seq\<close> at the positions that end \<open>|loc|\<close> bytes before
  the end. With \<open>loc = -2\<close> and a one-byte sequence that is position 2045, which
  the write leaves untouched.
\<close>

theorem set_bytes_from_end_counterexample:
  "getslice (data (set_bytes \<lparr>data = replicate 2048 0\<rparr> (- 2) [1])) (2048 - 2 - 1) (2048 - 2) = [0]
   \<and> getslice (data (set_bytes \<lparr>data = replicate 2048 0\<rparr> (- 2) [1])) (2048 - 2 - 1) (2048 - 2) \<noteq> [1]"
proof -
  have "data (set_bytes \<lparr>data = replicate 2048 0\<rparr> (- 2) [1]) = overwrite (replicate 2048 0) 2046 [1]"
    using setslice_from_end [of "- 2" "replicate 2048 (0::byte)" "[1]"]
    by (simp add: set_bytes_def)
  moreover have "getslice (overwrite (replicate 2048 (0::byte)) 2046 [1]) 2045 (2045 + 1)
      = take (nat 1) (drop (nat 2045) (overwrite (replicate 2048 0) 2046 [1]))"
    by (rule getslice_absolute) simp_all
  ultimately show ?thesis by (simp add: slice_overwrite_before)
qed

text \<open>
  A sequence of exactly \<open>|loc|\<close> bytes makes the slice \<open>[loc:0]\<close>, which is empty:
  the sequence is inserted and the buffer grows.
\<close>

lemma set_bytes_whole_tail_inserts:
  "length (data (set_bytes \<lparr>data = replicate 2048 0\<rparr> (- 1) [1])) = 2049"
  by (simp add: set_bytes_def setslice_def clamp_index_def)

section \<open>Fixed-width BCD fields\<close>

lemma fixed_digits_zero: "fixed_digits w 0 = replicate w 0"
  by (induction w) (simp_all add: replicate_append_same)

lemma digits10_small: "n < 10 \<Longrightarrow> map digit_of_char (digits10 n) = [int n]"
  by (subst digits10.simps) (simp add: ord_digit_char)

lemma digits10_step:
  "\<not> n < 10 \<Longrightarrow>
   map digit_of_char (digits10 n) = map digit_of_char (digits10 (n div 10)) @ [int (n mod 10)]"
  by (subst digits10.simps) (simp add: ord_digit_char)

lemma digitcount_small: "n < 10 \<Longrightarrow> digitcount n = 1"
  by (subst digitcount.simps) simp

lemma digitcount_step: "\<not> n < 10 \<Longrightarrow> digitcount n = Suc (digitcount (n div 10))"
  by (subst digitcount.simps) simp

lemma padded_digits_fixed:
  "n < 10 ^ w \<Longrightarrow> 0 < w \<Longrightarrow>
   replicate (w - digitcount n) 0 @ map digit_of_char (digits10 n) = fixed_digits w n"
proof (induction w arbitrary: n)
  case 0
  then show ?case by simp
next
  case (Suc w)
  show ?case
  proof (cases "n < 10")
    case True
    then show ?thesis
      by (simp add: digits10_small digitcount_small fixed_digits_zero)
  next
    case False
    then have w: "0 < w" using Suc.prems by (cases w) simp_all
    have "n div 10 < 10 ^ w" using Suc.prems by simp
    from Suc.IH [OF this w] False show ?thesis
      by (simp add: digits10_step digitcount_step)
  qed
qed

lemma to_bcd_fixed:
  assumes "0 \<le> n" and "nat n < 10 ^ w" and "0 < w"
  shows "to_bcd n (int w) = fixed_digits w (nat n)"
  using assms padded_digits_fixed [of "nat n" w] by (simp add: to_bcd_nonneg)

lemma fixed_digits_3:
  "fixed_digits 3 m = [int (m div 10 div 10 mod 10), int (m div 10 mod 10), int (m mod 10)]"
proof -
  have three: "(3::nat) = Suc (Suc (Suc 0))" by simp
  show ?thesis unfolding three by simp
qed

lemma fixed_digits_4:
  "fixed_digits 4 m =
     [int (m div 10 div 10 div 10 mod 10), int (m div 10 div 10 mod 10), int (m div 10 mod 10),
      int (m mod 10)]"
proof -
  have four: "(4::nat) = Suc (Suc (Suc (Suc 0)))" by simp
  show ?thesis unfolding four by simp
qed

lemma fixed_digits_2: "fixed_digits 2 m = [int (m div 10 mod 10), int (m mod 10)]"
proof -
  have two: "(2::nat) = Suc (Suc 0)" by simp
  show ?thesis unfolding two by simp
qed

lemma nat_digit_facts:
  assumes "0 \<le> n"
  shows "int (nat n mod 10) = n mod 10"
    and "int (nat n div 10 mod 10) = n div 10 mod 10"
    and "int (nat n div 10 div 10 mod 10) = n div 100 mod 10"
    and "int (nat n div 10 div 10 div 10 mod 10) = n div 1000 mod 10"
proof -
  have a: "nat n div 10 div 10 = nat n div 100" by (simp add: div_mult2_eq [symmetric])
  have b: "nat n div 10 div 10 div 10 = nat n div 1000" by (simp add: div_mult2_eq [symmetric])
  show "int (nat n mod 10) = n mod 10" "int (nat n div 10 mod 10) = n div 10 mod 10"
    using assms by (simp_all add: zdiv_int zmod_int)
  show "int (nat n div 10 div 10 mod 10) = n div 100 mod 10"
    unfolding a using assms by (simp add: zdiv_int zmod_int)
  show "int (nat n div 10 div 10 div 10 mod 10) = n div 1000 mod 10"
    unfolding b using assms by (simp add: zdiv_int zmod_int)
qed

lemma to_bcd_3:
  assumes "0 \<le> n" and "n \<le> 999"
  shows "to_bcd n 3 = [n div 100, n div 10 mod 10, n mod 10]"
proof -
  have "to_bcd n (int 3) = fixed_digits 3 (nat n)"
    using assms by (intro to_bcd_fixed) simp_all
  moreover have "n div 100 mod 10 = n div 100" using assms by simp
  ultimately show ?thesis using assms(1) by (simp add: fixed_digits_3 nat_digit_facts)
qed

lemma to_bcd_4:
  assumes "0 \<le> n" and "n \<le> 9999"
  shows "to_bcd n 4 = [n div 1000, n div 100 mod 10, n div 10 mod 10, n mod 10]"
proof -
  have "to_bcd n (int 4) = fixed_digits 4 (nat n)"
    using assms by (intro to_bcd_fixed) simp_all
  moreover have "n div 1000 mod 10 = n div 1000" using assms by simp
  ultimately show ?thesis using assms(1) by (simp add: fixed_digits_4 nat_digit_facts)
qed

lemma to_bcd_2:
  assumes "0 \<le> n" and "n \<le> 99"
  shows "to_bcd n 2 = [n div 10, n mod 10]"
proof -
  have "to_bcd n (int 2) = fixed_digits 2 (nat n)"
    using assms by (intro to_bcd_fixed) simp_all
  moreover have "n div 10 mod 10 = n div 10" using assms by simp
  ultimately show ?thesis using assms(1) by (simp add: fixed_digits_2 nat_digit_facts)
qed

section \<open>Which exceptions can be raised\<close>

lemma getitem_error: "getitem xs i = Inl e \<Longrightarrow> e = IndexError"
  by (simp add: getitem_def split: if_splits)

lemma get_word_error: "get_word t loc = Inl e \<Longrightarrow> e = IndexError"
  by (auto simp: get_word_def split: sum.splits dest: getitem_error)

lemma bytearray_error: "bytearray xs = Inl e \<Longrightarrow> e = ValueError"
  by (simp add: bytearray_def split: if_splits)

lemma two_bytes_error: "two_bytes w = Inl e \<Longrightarrow> e = Exception_two_bytes \<or> e = ValueError"
  by (auto simp: two_bytes_def split: if_splits dest: bytearray_error)

lemma program_info_error:
  "program_info offset rows stitches n = Inl e \<Longrightarrow> e = Exception_two_bytes \<or> e = ValueError"
  by (auto simp: program_info_def pack_nibbles_def Let_def split: sum.splits
           dest: two_bytes_error bytearray_error)

lemma py_int_error: "py_int s = Inl e \<Longrightarrow> e = ValueError"
  by (simp add: py_int_def split: if_splits)

lemma pat_num_error: "pat_num t loc = Inl e \<Longrightarrow> e = TypeError \<or> e = ValueError"
  by (auto simp: pat_num_def Let_def split: if_splits dest: py_int_error)

lemma find_empty_entry_error:
  "find_empty_entry t info_end loc n = Inl e \<Longrightarrow> e \<noteq> Error_no_space"
proof (induction t info_end loc n rule: find_empty_entry.induct)
  case (1 t info_end loc pattern_num)
  from "1.prems" show ?case
    by (subst (asm) find_empty_entry.simps)
       (auto split: if_splits sum.splits dest: pat_num_error get_word_error "1.IH")
qed

lemma set_word_error: "set_word t loc w = (Inl e, t') \<Longrightarrow> e = Exception_two_bytes \<or> e = ValueError"
  by (auto simp: set_word_def split: sum.splits dest: two_bytes_error)

lemma add_pgm_entry_error: "add_pgm_entry t n = (Inl e, t') \<Longrightarrow> e \<noteq> Error_no_space"
  by (auto simp: add_pgm_entry_def set_pgm_info_end_def pgm_info_end_def split: sum.splits
           dest: program_info_error get_word_error set_word_error)

lemma add_pattern_accepted_error:
  assumes "free_mem t = Inr free" and "\<not> int (length pattern) > free"
  shows "fst (add_pattern t pattern nrows nstitches) \<noteq> Inl Error_no_space"
  using assms
  by (auto simp: add_pattern_def Let_def pgm_info_end_def available_offset_def set_available_def
           split: sum.splits prod.splits if_splits
           dest: get_word_error find_empty_entry_error program_info_error set_word_error
                 add_pgm_entry_error)

lemma pack_ten_digits:
  assumes "0 \<le> d0 \<and> d0 \<le> 9" "0 \<le> d1 \<and> d1 \<le> 9" "0 \<le> d2 \<and> d2 \<le> 9" "0 \<le> d3 \<and> d3 \<le> 9"
    "0 \<le> d4 \<and> d4 \<le> 9" "0 \<le> d5 \<and> d5 \<le> 9" "0 \<le> d6 \<and> d6 \<le> 9" "0 \<le> d7 \<and> d7 \<le> 9"
    "0 \<le> d8 \<and> d8 \<le> 9" "0 \<le> d9 \<and> d9 \<le> 9"
  shows "pack_nibbles [d0, d1, d2, d3, d4, d5, d6, d7, d8, d9] =
     Inr [word_of_int (16 * d0 + d1), word_of_int (16 * d2 + d3), word_of_int (16 * d4 + d5),
          word_of_int (16 * d6 + d7), word_of_int (16 * d8 + d9)]"
  using assms by (simp add: pack_nibbles_def bytearray_def push_bit_eq_mult)

lemma digit_range:
  fixes x :: int
  shows "0 \<le> x mod 10 \<and> x mod 10 \<le> 9"
  by simp

lemma program_info_bytes:
  assumes "0 \<le> offset" "offset < 65536" "0 \<le> rows" "rows \<le> 999"
    and "0 \<le> stitches" "stitches \<le> 999" "0 \<le> n" "n \<le> 9999"
  shows "program_info offset rows stitches n =
     Inr [word_of_int (offset div 256), word_of_int (offset mod 256),
          word_of_int (16 * (rows div 100) + rows div 10 mod 10),
          word_of_int (16 * (rows mod 10) + stitches div 100),
          word_of_int (16 * (stitches div 10 mod 10) + stitches mod 10),
          word_of_int (16 * (n div 1000) + n div 100 mod 10),
          word_of_int (16 * (n div 10 mod 10) + n mod 10)]"
proof -
  have r: "0 \<le> rows div 100 \<and> rows div 100 \<le> 9" using assms(3,4) zdiv_mono1 [of rows 999 100] by simp
  have s: "0 \<le> stitches div 100 \<and> stitches div 100 \<le> 9" using assms(5,6) zdiv_mono1 [of stitches 999 100] by simp
  have n: "0 \<le> n div 1000 \<and> n div 1000 \<le> 9" using assms(7,8) zdiv_mono1 [of n 9999 1000] by simp
  have digits: "to_bcd rows 3 @ to_bcd stitches 3 @ to_bcd n 4 =
      [rows div 100, rows div 10 mod 10, rows mod 10, stitches div 100, stitches div 10 mod 10,
       stitches mod 10, n div 1000, n div 100 mod 10, n div 10 mod 10, n mod 10]"
    by (simp add: to_bcd_3 [OF assms(3,4)] to_bcd_3 [OF assms(5,6)] to_bcd_4 [OF assms(7,8)])
  have p: "pack_nibbles (to_bcd rows 3 @ to_bcd stitches 3 @ to_bcd n 4) =
     Inr [word_of_int (16 * (rows div 100) + rows div 10 mod 10),
          word_of_int (16 * (rows mod 10) + stitches div 100),
          word_of_int (16 * (stitches div 10 mod 10) + stitches mod 10),
          word_of_int (16 * (n div 1000) + n div 100 mod 10),
          word_of_int (16 * (n div 10 mod 10) + n mod 10)]"
    unfolding digits
    by (rule pack_ten_digits) (rule r s n digit_range)+
  show ?thesis
    unfolding program_info_def Let_def p two_bytes_ok [OF assms(1,2)] by simp
qed

lemma uint_byte_of_int: "uint (word_of_int x :: byte) = x mod 256"
  by (simp add: uint_word_of_int take_bit_eq_mod)

lemma bcd_pair_nibbles:
  assumes "0 \<le> hi \<and> hi \<le> 9" "0 \<le> lo \<and> lo \<le> 9"
  shows "hi_nibble (word_of_int (16 * hi + lo)) = hi" "lo_nibble (word_of_int (16 * hi + lo)) = lo"
  using assms unfolding hi_nibble_def lo_nibble_def uint_byte_of_int by simp_all

section \<open>Decoding the pattern number of an entry\<close>

lemma is_digit_digit_char: "n < 10 \<Longrightarrow> is_digit (digit_char n)"
  by (simp add: is_digit_def digit_char_def of_char_char_of_nat)

lemma is_digit_range: "is_digit c \<Longrightarrow> 0 \<le> digit_of_char c \<and> digit_of_char c \<le> 9"
  by (simp add: is_digit_def digit_of_char_def)

lemma nibbles_nat:
  "lo_nibble b = int (unat b mod 16)" "hi_nibble b = int (unat b div 16)"
  by (simp_all add: lo_nibble_def hi_nibble_def zmod_int zdiv_int)

lemma nibbles_nonneg: "0 \<le> lo_nibble b" "0 \<le> hi_nibble b"
  by (simp_all add: nibbles_nat)

lemma py_int_three_digits:
  assumes "x < 10" "y < 10" "z < 10"
  shows "py_int [digit_char x, digit_char y, digit_char z] = Inr (100 * int x + 10 * int y + int z)"
  using assms by (simp add: py_int_def is_digit_digit_char ord_digit_char)

lemma py_int_three_range:
  assumes "py_int [a, b, c] = Inr n"
  shows "0 \<le> n \<and> n \<le> 999"
proof -
  from assms have d: "is_digit a" "is_digit b" "is_digit c"
    and n: "n = 10 * (10 * digit_of_char a + digit_of_char b) + digit_of_char c"
    by (simp_all add: py_int_def split: if_splits)
  from d [THEN is_digit_range] show ?thesis unfolding n by simp
qed

lemma seven_bytes:
  assumes "length (e :: 'a list) = 7"
  obtains b0 b1 b2 b3 b4 b5 b6 where "e = [b0, b1, b2, b3, b4, b5, b6]"
proof -
  have seven: "(7::nat) = Suc (Suc (Suc (Suc (Suc (Suc (Suc 0))))))" by simp
  from assms show ?thesis unfolding seven by (auto simp: length_Suc_conv intro: that)
qed

lemma last_three_nibbles:
  "getslice (concat (map format_02X [b0, b1, b2, b3, b4, b5, b6])) (- 3)
      (int (length (concat (map format_02X [b0, b1, b2, b3, b4, b5, b6]))))
   = [hex_char (unat b5 mod 16), hex_char (unat b6 div 16), hex_char (unat b6 mod 16)]"
  by (simp add: format_02X_def getslice_def clamp_index_def)

lemma pat_num_of_entry:
  assumes "getslice (data t) loc (loc + pgm_info_size) = [b0, b1, b2, b3, b4, b5, b6]"
  shows "pat_num t loc =
     py_int [hex_char (unat b5 mod 16), hex_char (unat b6 div 16), hex_char (unat b6 mod 16)]"
  unfolding pat_num_def Let_def assms last_three_nibbles by (simp add: pgm_info_size_def)

lemma pat_num_range:
  assumes "pat_num t loc = Inr n"
  shows "0 \<le> n \<and> n \<le> 999"
proof -
  from assms have "length (getslice (data t) loc (loc + pgm_info_size)) = 7"
    by (simp add: pat_num_def Let_def pgm_info_size_def split: if_splits)
  then obtain b0 b1 b2 b3 b4 b5 b6
    where "getslice (data t) loc (loc + pgm_info_size) = [b0, b1, b2, b3, b4, b5, b6]"
    by (rule seven_bytes)
  from pat_num_of_entry [OF this] assms show ?thesis by (simp add: py_int_three_range)
qed

lemma pat_num_bcd:
  assumes "getslice (data t) loc (loc + pgm_info_size) = [b0, b1, b2, b3, b4, b5, b6]"
    and "lo_nibble b5 \<le> 9" and "hi_nibble b6 \<le> 9" and "lo_nibble b6 \<le> 9"
  shows "pat_num t loc = Inr (100 * lo_nibble b5 + 10 * hi_nibble b6 + lo_nibble b6)"
proof -
  have x: "unat b5 mod 16 < 10" "int (unat b5 mod 16) = lo_nibble b5"
    using assms(2) by (simp_all add: nibbles_nat)
  have y: "unat b6 div 16 < 10" "int (unat b6 div 16) = hi_nibble b6"
    using assms(3) by (simp_all add: nibbles_nat)
  have z: "unat b6 mod 16 < 10" "int (unat b6 mod 16) = lo_nibble b6"
    using assms(4) by (simp_all add: nibbles_nat)
  have h: "hex_char (unat b5 mod 16) = digit_char (unat b5 mod 16)"
    "hex_char (unat b6 div 16) = digit_char (unat b6 div 16)"
    "hex_char (unat b6 mod 16) = digit_char (unat b6 mod 16)"
    using x(1) y(1) z(1) by (simp_all add: hex_char_def)
  show ?thesis
    unfolding pat_num_of_entry [OF assms(1)] h py_int_three_digits [OF x(1) y(1) z(1)]
    by (simp add: x y z)
qed

text \<open>
  Claim C8, amended. For every 7-byte directory entry whose 14 nibbles are BCD
  digits, \<open>pat_num\<close> (the entry as 14 hexadecimal digits, the last three read as a
  decimal number) yields the structured 4-digit decode of the last two bytes reduced
  modulo 1000, that is its last three digits; the two decodes give the same number
  when the thousands digit is 0.
\<close>

theorem pat_num_bcd_entry:
  assumes "getslice (data t) loc (loc + pgm_info_size) = entry"
    and "length entry = 7" and "list_all bcd_byte entry"
  shows "pat_num t loc = Inr (entry_pattern_number entry mod 1000)
       \<and> (hi_nibble (entry ! 5) = 0 \<longrightarrow> pat_num t loc = Inr (entry_pattern_number entry))"
proof -
  obtain b0 b1 b2 b3 b4 b5 b6 where e: "entry = [b0, b1, b2, b3, b4, b5, b6]"
    using assms(2) by (rule seven_bytes)
  from assms(3) have bcd: "lo_nibble b5 \<le> 9" "hi_nibble b6 \<le> 9" "lo_nibble b6 \<le> 9"
    by (simp_all add: e bcd_byte_def)
  have nn: "0 \<le> lo_nibble b5" "0 \<le> hi_nibble b6" "0 \<le> lo_nibble b6" "0 \<le> hi_nibble b5"
    by (simp_all add: nibbles_nonneg)
  have p: "pat_num t loc = Inr (100 * lo_nibble b5 + 10 * hi_nibble b6 + lo_nibble b6)"
    using assms(1) bcd unfolding e by (rule pat_num_bcd)
  have "(1000 * hi_nibble b5 + (100 * lo_nibble b5 + 10 * hi_nibble b6 + lo_nibble b6)) mod 1000
      = 100 * lo_nibble b5 + 10 * hi_nibble b6 + lo_nibble b6"
    using bcd nn by simp
  then show ?thesis by (simp add: p e entry_pattern_number_def add.assoc)
qed

theorem pat_num_bcd_entry_witness:
  "pat_num \<lparr>data = [1, 0x20, 0x01, 0x20, 0x34, 0x09, 0x01]\<rparr> 0 = Inr 901
   \<and> entry_pattern_number [1, 0x20, 0x01, 0x20, 0x34, 0x09, 0x01] = 901"
  using pat_num_bcd_entry [of "\<lparr>data = [1, 0x20, 0x01, 0x20, 0x34, 0x09, 0x01]\<rparr>" 0
      "[1, 0x20, 0x01, 0x20, 0x34, 0x09, 0x01]"]
  by (simp add: getslice_def clamp_index_def pgm_info_size_def bcd_byte_def hi_nibble_def
      lo_nibble_def entry_pattern_number_def)

text \<open>
  The claim as stated equates the two decodes for every BCD entry. An entry whose
  pattern number field holds 1901 is read as 901 by \<open>pat_num\<close>.
\<close>

theorem pat_num_bcd_entry_counterexample:
  "list_all bcd_byte [0, 0, 0, 0, 0, 0x19, 0x01]
   \<and> pat_num \<lparr>data = [0, 0, 0, 0, 0, 0x19, 0x01] @ replicate 2041 0\<rparr> 0 = Inr 901
   \<and> entry_pattern_number [0, 0, 0, 0, 0, 0x19, 0x01] = 1901"
proof -
  have "getslice (data \<lparr>data = [0, 0, 0, 0, 0, 0x19, 0x01 :: byte] @ replicate 2041 0\<rparr>) 0
      (0 + pgm_info_size) = [0, 0, 0, 0, 0, 0x19, 0x01]"
    by (simp add: getslice_def clamp_index_def pgm_info_size_def)
  from pat_num_bcd [OF this] show ?thesis
    by (simp add: bcd_byte_def hi_nibble_def lo_nibble_def entry_pattern_number_def)
qed

section \<open>The new track\<close>

lemma set_word_ok:
  assumes "0 \<le> w" "w < 65536" "0 \<le> loc" "nat loc + 2 \<le> length (data t)"
  shows "set_word t loc w =
     (Inr (), t\<lparr>data := overwrite (data t) (nat loc) [word_of_int (w div 256), word_of_int (w mod 256)]\<rparr>)"
proof -
  have "setslice (data t) loc (loc + int (length [word_of_int (w div 256) :: byte, word_of_int (w mod 256)]))
          [word_of_int (w div 256), word_of_int (w mod 256)]
      = overwrite (data t) (nat loc) [word_of_int (w div 256), word_of_int (w mod 256)]"
    using assms(3,4) by (intro setslice_absolute) simp_all
  then show ?thesis by (simp add: set_word_def two_bytes_ok [OF assms(1,2)])
qed

lemma get_word_written:
  assumes "0 \<le> w" "w < 65536" "0 \<le> loc"
    and "take 2 (drop (nat loc) (data t)) = [word_of_int (w div 256), word_of_int (w mod 256)]"
  shows "get_word t loc = Inr w"
  using get_word_slice [OF assms(3,4)] word_of_two_bytes [OF assms(1,2)] by simp

lemma Track_init_data: "Track_init = (Inr (), \<lparr>data = fresh_data\<rparr>)"
proof -
  let ?d0 = "replicate 2048 (0::byte)"
  let ?d1 = "overwrite ?d0 1792 [1, 32]"
  let ?d2 = "overwrite ?d1 1808 [8, 0]"
  let ?d3 = "overwrite ?d2 0 [0, 0, 0, 0, 0, 9, 1]"
  have s1: "set_available \<lparr>data = ?d0\<rparr> pattern_offset = (Inr (), \<lparr>data = ?d1\<rparr>)"
    by (simp add: set_available_def available_loc_def pattern_offset_def set_word_ok)
  have s2: "set_pgm_info_end \<lparr>data = ?d1\<rparr> track_size = (Inr (), \<lparr>data = ?d2\<rparr>)"
    by (simp add: set_pgm_info_end_def pgm_info_end_loc_def track_size_def set_word_ok)
  have "take 2 (drop (nat 1808) ?d2) = [word_of_int (2048 div 256), word_of_int (2048 mod 256)]"
    by (simp add: slice_overwrite_inside)
  then have g: "pgm_info_end \<lparr>data = ?d2\<rparr> = Inr 2048"
    by (simp add: pgm_info_end_def pgm_info_end_loc_def get_word_written)
  have p: "program_info 0 0 0 initial_pattern_number = Inr [0, 0, 0, 0, 0, 9, 1]"
    by (simp add: initial_pattern_number_def program_info_bytes)
  have b: "set_bytes \<lparr>data = ?d2\<rparr> (- 2048) [0, 0, 0, 0, 0, 9, 1] = \<lparr>data = ?d3\<rparr>"
    using setslice_from_end [of "- 2048" ?d2 "[0, 0, 0, 0, 0, 9, 1]"]
    by (simp add: set_bytes_def)
  have s3: "set_pgm_info_end \<lparr>data = ?d3\<rparr> (2048 - 7) = (Inr (), \<lparr>data = fresh_data\<rparr>)"
    by (simp add: set_pgm_info_end_def pgm_info_end_loc_def set_word_ok fresh_data_def)
  have a: "add_pgm_entry \<lparr>data = ?d2\<rparr> initial_pattern_number = (Inr (), \<lparr>data = fresh_data\<rparr>)"
    unfolding add_pgm_entry_def p g using b s3 by simp
  show ?thesis
    unfolding Track_init_def using s1 s2 a by (simp add: track_size_def)
qed

lemma fresh_length: "length fresh_data = 2048"
  by (simp add: fresh_data_def)

lemma take_overwrite_before:
  "n \<le> p \<Longrightarrow> p + length seq \<le> length xs \<Longrightarrow> take n (overwrite xs p seq) = take n xs"
  using slice_overwrite_before [of 0 n p seq xs] by simp

lemma take_overwrite_inside:
  "n \<le> length seq \<Longrightarrow> length seq \<le> length xs \<Longrightarrow> take n (overwrite xs 0 seq) = take n seq"
  using slice_overwrite_inside [of 0 0 n seq xs] by simp

lemmas slice_overwrite =
  slice_overwrite_inside slice_overwrite_before slice_overwrite_after
  take_overwrite_before take_overwrite_inside

lemma fresh_reads:
  "take 7 fresh_data = [0, 0, 0, 0, 0, 9, 1]"
  "take 2 (drop 1792 fresh_data) = [1, 32]"
  "take 2 (drop 1808 fresh_data) = [7, 249]"
  by (simp_all add: fresh_data_def slice_overwrite)

section \<open>Reads that a write does not change, and the directory scan\<close>

lemma get_word_range:
  assumes "get_word t loc = Inr w"
  shows "0 \<le> w \<and> w < 65536"
proof -
  from assms obtain hi lo :: byte where w: "w = push_bit 8 (uint hi) + uint lo"
    by (auto simp: get_word_def split: sum.splits)
  have "uint hi < 256" "uint lo < 256" "0 \<le> uint hi" "0 \<le> uint lo"
    using uint_lt2p [of hi] uint_lt2p [of lo] by simp_all
  then show ?thesis unfolding w by (simp add: push_bit_eq_mult)
qed

lemma get_word_cong:
  assumes "0 \<le> loc" and "nat loc + 2 \<le> length (data t)" and "nat loc + 2 \<le> length (data t')"
    and "take 2 (drop (nat loc) (data t')) = take 2 (drop (nat loc) (data t))"
  shows "get_word t' loc = get_word t loc"
proof -
  have "take 2 (drop (nat loc) (data t')) ! 0 = take 2 (drop (nat loc) (data t)) ! 0"
    "take 2 (drop (nat loc) (data t')) ! 1 = take 2 (drop (nat loc) (data t)) ! 1"
    by (simp_all only: assms(4))
  then have nth: "data t' ! nat loc = data t ! nat loc"
    "data t' ! (nat loc + 1) = data t ! (nat loc + 1)"
    using assms(2,3) by simp_all
  have lt: "loc < int (length (data t))" "loc + 1 < int (length (data t))"
    "loc < int (length (data t'))" "loc + 1 < int (length (data t'))"
    using assms(1,2,3) by linarith+
  have g0: "getitem (data t') loc = getitem (data t) loc"
    using assms(1) lt nth by (simp add: getitem_def)
  have g1: "getitem (data t') (loc + 1) = getitem (data t) (loc + 1)"
    using assms(1) lt nth by (simp add: getitem_def nat_add_distrib)
  show ?thesis unfolding get_word_def g0 g1 ..
qed

lemma pat_num_cong:
  assumes "0 \<le> loc" and "nat loc + 7 \<le> length (data t)" and "nat loc + 7 \<le> length (data t')"
    and "take 7 (drop (nat loc) (data t')) = take 7 (drop (nat loc) (data t))"
  shows "pat_num t' loc = pat_num t loc"
proof -
  have "getslice (data t') loc (loc + 7) = take (nat 7) (drop (nat loc) (data t'))"
    using assms(1,3) by (intro getslice_absolute) simp_all
  moreover have "getslice (data t) loc (loc + 7) = take (nat 7) (drop (nat loc) (data t))"
    using assms(1,2) by (intro getslice_absolute) simp_all
  ultimately show ?thesis using assms(4) by (simp add: pat_num_def pgm_info_size_def)
qed

lemma find_empty_entry_result:
  "find_empty_entry t info_end loc0 n0 = Inr (loc, n) \<Longrightarrow>
   loc0 \<le> loc \<and> loc < info_end \<and> loc - loc0 = 7 * (n - n0) \<and> n0 \<le> n
   \<and> pat_num t loc = Inr n \<and> get_word t loc = Inr 0"
proof (induction t info_end loc0 n0 rule: find_empty_entry.induct)
  case (1 t info_end loc0 n0)
  from "1.prems" have lt: "loc0 < info_end"
    by (subst (asm) find_empty_entry.simps) (simp split: if_splits)
  from "1.prems" lt obtain w where pn: "pat_num t loc0 = Inr n0" and gw: "get_word t loc0 = Inr w"
    by (subst (asm) find_empty_entry.simps) (auto split: if_splits sum.splits)
  show ?case
  proof (cases "w = 0")
    case True
    with "1.prems" lt pn gw have "loc = loc0" "n = n0"
      by (subst (asm) find_empty_entry.simps, simp)+
    with lt pn gw True show ?thesis by simp
  next
    case False
    with "1.prems" lt pn gw
    have rec: "find_empty_entry t info_end (loc0 + pgm_info_size) (n0 + 1) = Inr (loc, n)"
      by (subst (asm) find_empty_entry.simps) simp
    have "loc0 + pgm_info_size \<le> loc \<and> loc < info_end
        \<and> loc - (loc0 + pgm_info_size) = 7 * (n - (n0 + 1)) \<and> n0 + 1 \<le> n
        \<and> pat_num t loc = Inr n \<and> get_word t loc = Inr 0"
      using "1.IH" [OF lt pn _ gw False rec] by simp
    then show ?thesis by (simp add: pgm_info_size_def)
  qed
qed

section \<open>Appending an empty entry\<close>

lemma program_info_empty:
  assumes "0 \<le> n" "n \<le> 9999"
  shows "program_info 0 0 0 n = Inr (empty_entry n)"
  using program_info_bytes [of 0 0 0 n] assms by (simp add: empty_entry_def)

lemma length_empty_entry [simp]: "length (empty_entry n) = 7"
  by (simp add: empty_entry_def)

lemma length_word_bytes [simp]: "length (word_bytes w) = 2"
  by (simp add: word_bytes_def)

lemma set_word_bytes:
  assumes "0 \<le> w" "w < 65536" "0 \<le> loc" "nat loc + 2 \<le> length (data t)"
  shows "set_word t loc w = (Inr (), t\<lparr>data := overwrite (data t) (nat loc) (word_bytes w)\<rparr>)"
  using set_word_ok [OF assms] by (simp add: word_bytes_def)

lemma add_pgm_entry_ok:
  assumes len: "length (data t) = 2048"
    and p: "pgm_info_end t = Inr p" "7 < p" "p \<le> 2048"
    and n: "0 \<le> n" "n \<le> 9999"
  shows "add_pgm_entry t n = (Inr (), t\<lparr>data := extended (data t) p n\<rparr>)"
proof -
  have pos: "length (data t) - nat (- (- p)) = nat (2048 - p)"
    using p len by simp
  have b: "setslice (data t) (- p) (- p + int (length (empty_entry n))) (empty_entry n)
      = overwrite (data t) (nat (2048 - p)) (empty_entry n)"
    unfolding pos [symmetric] using p len by (intro setslice_from_end) simp_all
  have l: "length (overwrite (data t) (nat (2048 - p)) (empty_entry n)) = 2048"
    using p len by simp
  have w: "set_word (t\<lparr>data := overwrite (data t) (nat (2048 - p)) (empty_entry n)\<rparr>)
      pgm_info_end_loc (p - 7) =
      (Inr (), t\<lparr>data := extended (data t) p n\<rparr>)"
    using p l by (subst set_word_bytes) (simp_all add: pgm_info_end_loc_def extended_def)
  have sb: "set_bytes t (- p) (empty_entry n)
      = t\<lparr>data := overwrite (data t) (nat (2048 - p)) (empty_entry n)\<rparr>"
    unfolding set_bytes_def b ..
  show ?thesis
    unfolding add_pgm_entry_def program_info_empty [OF n] p(1) sum.case sb set_pgm_info_end_def
    using w by simp
qed

section \<open>The buffer after a pattern is added\<close>

lemma stored_length:
  assumes "length d = 2048" "0 \<le> loc" "loc + int (length info) \<le> 2048"
    and "0 \<le> a" "a + int (length pattern) \<le> 2048"
  shows "length (stored d loc info a pattern) = 2048"
proof -
  have 1: "length (overwrite d (nat loc) info) = 2048"
    using assms by simp
  have 2: "length (overwrite (overwrite d (nat loc) info) (nat (2048 - (a + int (length pattern)))) pattern) = 2048"
    using assms 1 by simp
  show ?thesis unfolding stored_def using 2 by simp
qed

lemma stored_info_end:
  assumes "length d = 2048" "0 \<le> loc" "loc + int (length info) \<le> 1792"
    and "288 \<le> a" "a + int (length pattern) \<le> 2048"
  shows "take 2 (drop 1808 (stored d loc info a pattern)) = take 2 (drop 1808 d)"
proof -
  have 1: "length (overwrite d (nat loc) info) = 2048"
    using assms by simp
  have 2: "length (overwrite (overwrite d (nat loc) info) (nat (2048 - (a + int (length pattern)))) pattern) = 2048"
    using assms 1 by simp
  have "take 2 (drop 1808 (stored d loc info a pattern))
      = take 2 (drop 1808 (overwrite (overwrite d (nat loc) info) (nat (2048 - (a + int (length pattern)))) pattern))"
    unfolding stored_def using 2 by (subst slice_overwrite_after) simp_all
  also have "\<dots> = take 2 (drop 1808 (overwrite d (nat loc) info))"
    using assms 1 by (subst slice_overwrite_after) simp_all
  also have "\<dots> = take 2 (drop 1808 d)"
    using assms by (subst slice_overwrite_after) simp_all
  finally show ?thesis .
qed

lemma add_pattern_effect:
  assumes len: "length (data t) = 2048"
    and a: "available_offset t = Inr a" "288 \<le> a"
    and p: "pgm_info_end t = Inr p"
    and k: "int (length pattern) \<le> p - a"
    and f: "find_empty_entry t (track_size - p) 0 initial_pattern_number = Inr (loc, num)"
    and i: "program_info a nrows nstitches num = Inr info" "loc + int (length info) \<le> 1792"
  shows "add_pattern t pattern nrows nstitches =
     (Inr num,
      t\<lparr>data := (if loc + int (length info) = 2048 - p
                  then extended (stored (data t) loc info a pattern) p (num + 1)
                  else stored (data t) loc info a pattern)\<rparr>)"
proof -
  let ?k = "int (length pattern)"
  let ?d3 = "stored (data t) loc info a pattern"
  from find_empty_entry_result [OF f]
  have loc: "0 \<le> loc" "loc < 2048 - p" and pn: "pat_num t loc = Inr num"
    and num: "initial_pattern_number \<le> num"
    by (auto simp: track_size_def)
  from pat_num_range [OF pn] num have n: "0 \<le> num + 1" "num + 1 \<le> 9999"
    by (simp_all add: initial_pattern_number_def)
  have pr: "a + ?k \<le> p" "p < 2048" "7 < p" "p \<le> 2048" "0 \<le> a"
    using k loc a(2) by simp_all
  have fm: "free_mem t = Inr (p - a)"
    by (simp add: free_mem_def p a(1))
  have s1: "set_bytes t loc info = t\<lparr>data := overwrite (data t) (nat loc) info\<rparr>"
    unfolding set_bytes_def using loc i(2) len by (subst setslice_absolute) simp_all
  have l1: "length (overwrite (data t) (nat loc) info) = 2048"
    using loc i(2) len by simp
  have pos: "length (overwrite (data t) (nat loc) info) - nat (- (- (a + ?k))) = nat (2048 - (a + ?k))"
    using pr l1 by simp
  have s2: "set_bytes (t\<lparr>data := overwrite (data t) (nat loc) info\<rparr>) (- (a + ?k)) pattern
      = t\<lparr>data := overwrite (overwrite (data t) (nat loc) info) (nat (2048 - (a + ?k))) pattern\<rparr>"
    unfolding set_bytes_def pos [symmetric] using pr a(2) l1
    by (subst setslice_from_end) simp_all
  have l2: "length (overwrite (overwrite (data t) (nat loc) info) (nat (2048 - (a + ?k))) pattern) = 2048"
    using pr l1 by simp
  have s3: "set_available
      (t\<lparr>data := overwrite (overwrite (data t) (nat loc) info) (nat (2048 - (a + ?k))) pattern\<rparr>)
      (a + ?k + 1) = (Inr (), t\<lparr>data := ?d3\<rparr>)"
    unfolding set_available_def using pr l2
    by (subst set_word_bytes) (simp_all add: available_loc_def stored_def)
  have l3: "length ?d3 = 2048"
    using len loc i(2) pr by (intro stored_length) simp_all
  have "get_word (t\<lparr>data := ?d3\<rparr>) 1808 = get_word t 1808"
    using len l3 loc i(2) pr a(2)
    by (intro get_word_cong) (simp_all add: stored_info_end)
  then have p3: "pgm_info_end (t\<lparr>data := ?d3\<rparr>) = Inr p"
    using p by (simp add: pgm_info_end_def pgm_info_end_loc_def)
  have s4: "add_pgm_entry (t\<lparr>data := ?d3\<rparr>) (num + 1)
      = (Inr (), t\<lparr>data := extended ?d3 p (num + 1)\<rparr>)"
    using add_pgm_entry_ok [of "t\<lparr>data := ?d3\<rparr>" p "num + 1"] l3 p3 pr n by simp
  show ?thesis
    unfolding add_pattern_def fm p f a(1) i(1) sum.case prod.case Let_def s1 s2 s3
    using k s4 by (simp add: track_size_def)
qed

lemma stored_available:
  assumes "length d = 2048" "0 \<le> loc" "loc + int (length info) \<le> 2048"
    and "0 \<le> a" "a + int (length pattern) \<le> 2048"
  shows "take 2 (drop 1792 (stored d loc info a pattern)) = word_bytes (a + int (length pattern) + 1)"
proof -
  have 1: "length (overwrite d (nat loc) info) = 2048"
    using assms by simp
  have 2: "length (overwrite (overwrite d (nat loc) info) (nat (2048 - (a + int (length pattern)))) pattern) = 2048"
    using assms 1 by simp
  show ?thesis unfolding stored_def using 2 by (subst slice_overwrite_inside) simp_all
qed

lemma stored_below:
  assumes "length d = 2048" "0 \<le> loc" "loc + int (length info) \<le> 1792"
    and "0 \<le> a" "a + int (length pattern) \<le> 2048"
    and "loc + int (length info) \<le> 2048 - (a + int (length pattern))"
    and "int (i + n) \<le> loc"
  shows "take n (drop i (stored d loc info a pattern)) = take n (drop i d)"
proof -
  have 1: "length (overwrite d (nat loc) info) = 2048"
    using assms by simp
  have 2: "length (overwrite (overwrite d (nat loc) info) (nat (2048 - (a + int (length pattern)))) pattern) = 2048"
    using assms 1 by simp
  have "take n (drop i (stored d loc info a pattern))
      = take n (drop i (overwrite (overwrite d (nat loc) info) (nat (2048 - (a + int (length pattern)))) pattern))"
    unfolding stored_def using 2 assms by (subst slice_overwrite_before) simp_all
  also have "\<dots> = take n (drop i (overwrite d (nat loc) info))"
    using assms 1 by (subst slice_overwrite_before) simp_all
  also have "\<dots> = take n (drop i d)"
    using assms by (subst slice_overwrite_before) simp_all
  finally show ?thesis .
qed

lemma stored_entry:
  assumes "length d = 2048" "0 \<le> loc" "loc + int (length info) \<le> 1792"
    and "0 \<le> a" "a + int (length pattern) \<le> 2048"
    and "loc + int (length info) \<le> 2048 - (a + int (length pattern))"
    and "n \<le> length info"
  shows "take n (drop (nat loc) (stored d loc info a pattern)) = take n info"
proof -
  have 1: "length (overwrite d (nat loc) info) = 2048"
    using assms by simp
  have 2: "length (overwrite (overwrite d (nat loc) info) (nat (2048 - (a + int (length pattern)))) pattern) = 2048"
    using assms 1 by simp
  have "take n (drop (nat loc) (stored d loc info a pattern))
      = take n (drop (nat loc) (overwrite (overwrite d (nat loc) info) (nat (2048 - (a + int (length pattern)))) pattern))"
    unfolding stored_def using 2 assms by (subst slice_overwrite_before) simp_all
  also have "\<dots> = take n (drop (nat loc) (overwrite d (nat loc) info))"
    using assms 1 by (subst slice_overwrite_before) simp_all
  also have "\<dots> = take n info"
    using assms by (subst slice_overwrite_inside) simp_all
  finally show ?thesis .
qed

lemma extended_length:
  assumes "length d = 2048" "7 < p" "p \<le> 2048"
  shows "length (extended d p n) = 2048"
proof -
  have "length (overwrite d (nat (2048 - p)) (empty_entry n)) = 2048"
    using assms by simp
  then show ?thesis unfolding extended_def by simp
qed

lemma extended_info_end:
  assumes "length d = 2048" "7 < p" "p \<le> 2048"
  shows "take 2 (drop 1808 (extended d p n)) = word_bytes (p - 7)"
proof -
  have "length (overwrite d (nat (2048 - p)) (empty_entry n)) = 2048"
    using assms by simp
  then show ?thesis unfolding extended_def by (subst slice_overwrite_inside) simp_all
qed

lemma extended_below:
  assumes "length d = 2048" "288 \<le> p" "p \<le> 2048" "int (i + n) \<le> 2048 - p"
  shows "take n (drop i (extended d p m)) = take n (drop i d)"
proof -
  have 1: "length (overwrite d (nat (2048 - p)) (empty_entry m)) = 2048"
    using assms by simp
  have "take n (drop i (extended d p m)) = take n (drop i (overwrite d (nat (2048 - p)) (empty_entry m)))"
    unfolding extended_def using 1 assms by (subst slice_overwrite_before) simp_all
  also have "\<dots> = take n (drop i d)"
    using assms by (subst slice_overwrite_before) simp_all
  finally show ?thesis .
qed

lemma extended_available:
  assumes "length d = 2048" "288 \<le> p" "p \<le> 2048"
  shows "take 2 (drop 1792 (extended d p m)) = take 2 (drop 1792 d)"
proof -
  have 1: "length (overwrite d (nat (2048 - p)) (empty_entry m)) = 2048"
    using assms by simp
  have "take 2 (drop 1792 (extended d p m)) = take 2 (drop 1792 (overwrite d (nat (2048 - p)) (empty_entry m)))"
    unfolding extended_def using 1 assms by (subst slice_overwrite_before) simp_all
  also have "\<dots> = take 2 (drop 1792 d)"
    using assms by (subst slice_overwrite_after) simp_all
  finally show ?thesis .
qed

lemma extended_entry:
  assumes "length d = 2048" "288 \<le> p" "p \<le> 2048" "n \<le> 7"
  shows "take n (drop (nat (2048 - p)) (extended d p m)) = take n (empty_entry m)"
proof -
  have 1: "length (overwrite d (nat (2048 - p)) (empty_entry m)) = 2048"
    using assms by simp
  have "take n (drop (nat (2048 - p)) (extended d p m))
      = take n (drop (nat (2048 - p)) (overwrite d (nat (2048 - p)) (empty_entry m)))"
    unfolding extended_def using 1 assms by (subst slice_overwrite_before) simp_all
  also have "\<dots> = take n (empty_entry m)"
    using assms by (subst slice_overwrite_inside) simp_all
  finally show ?thesis .
qed

lemma get_word_bytes:
  assumes "0 \<le> w" "w < 65536" "0 \<le> loc"
    and "take 2 (drop (nat loc) (data t)) = word_bytes w"
  shows "get_word t loc = Inr w"
  using get_word_written [OF assms(1,2,3)] assms(4) by (simp add: word_bytes_def)

lemma get_word_of_entry:
  assumes "0 \<le> loc" and "take 7 (drop (nat loc) (data t)) = b0 # b1 # rest"
  shows "get_word t loc = Inr (256 * uint b0 + uint b1)"
proof -
  have "take 2 (drop (nat loc) (data t)) = take 2 (take 7 (drop (nat loc) (data t)))"
    by simp
  also have "\<dots> = [b0, b1]" unfolding assms(2) by simp
  finally show ?thesis using assms(1) by (rule get_word_slice [rotated])
qed

lemma pat_num_at:
  assumes "0 \<le> loc" and "take 7 (drop (nat loc) (data t)) = [b0, b1, b2, b3, b4, b5, b6]"
    and "lo_nibble b5 \<le> 9" and "hi_nibble b6 \<le> 9" and "lo_nibble b6 \<le> 9"
  shows "pat_num t loc = Inr (100 * lo_nibble b5 + 10 * hi_nibble b6 + lo_nibble b6)"
proof -
  have len: "nat loc + nat 7 \<le> length (data t)"
  proof (rule ccontr)
    assume "\<not> ?thesis"
    then have "length (take 7 (drop (nat loc) (data t))) < 7" by simp
    then show False by (simp add: assms(2))
  qed
  have "getslice (data t) loc (loc + 7) = take (nat 7) (drop (nat loc) (data t))"
    using assms(1) len by (intro getslice_absolute) simp_all
  then have "getslice (data t) loc (loc + pgm_info_size) = [b0, b1, b2, b3, b4, b5, b6]"
    using assms(2) by (simp add: pgm_info_size_def)
  then show ?thesis using assms(3-5) by (rule pat_num_bcd)
qed

section \<open>Entries that decode to what was stored\<close>

lemma program_info_entry:
  assumes "0 \<le> offset" "offset < 65536" "0 \<le> rows" "rows \<le> 999"
    and "0 \<le> stitches" "stitches \<le> 999" "0 \<le> n" "n \<le> 9999"
  shows "program_info offset rows stitches n = Inr (entry_bytes offset rows stitches n)"
  unfolding entry_bytes_def using assms by (rule program_info_bytes)

lemma length_entry_bytes [simp]: "length (entry_bytes offset rows stitches n) = 7"
  by (simp add: entry_bytes_def)

lemma digits3_value:
  fixes n :: int
  shows "100 * (n div 100) + 10 * (n div 10 mod 10) + n mod 10 = n"
proof -
  have "n div 100 = n div 10 div 10" by (simp add: zdiv_zmult2_eq)
  then show ?thesis
    using mult_div_mod_eq [of 10 n] mult_div_mod_eq [of 10 "n div 10"] by linarith
qed

lemma digits4_value:
  fixes n :: int
  shows "1000 * (n div 1000) + 100 * (n div 100 mod 10) + 10 * (n div 10 mod 10) + n mod 10 = n"
proof -
  have "n div 100 = n div 10 div 10" "n div 1000 = n div 100 div 10"
    by (simp_all add: zdiv_zmult2_eq)
  then show ?thesis
    using mult_div_mod_eq [of 10 n] mult_div_mod_eq [of 10 "n div 10"]
      mult_div_mod_eq [of 10 "n div 100"] by linarith
qed

lemma entry_bytes_decode:
  assumes "0 \<le> offset" "offset < 65536" "0 \<le> rows" "rows \<le> 999"
    and "0 \<le> stitches" "stitches \<le> 999" "0 \<le> n" "n \<le> 9999"
  shows "entry_offset (entry_bytes offset rows stitches n) = offset"
    and "entry_rows (entry_bytes offset rows stitches n) = rows"
    and "entry_stitches (entry_bytes offset rows stitches n) = stitches"
    and "entry_pattern_number (entry_bytes offset rows stitches n) = n"
proof -
  have r: "0 \<le> rows div 100 \<and> rows div 100 \<le> 9"
    using assms(3,4) zdiv_mono1 [of rows 999 100] by simp
  have s: "0 \<le> stitches div 100 \<and> stitches div 100 \<le> 9"
    using assms(5,6) zdiv_mono1 [of stitches 999 100] by simp
  have n: "0 \<le> n div 1000 \<and> n div 1000 \<le> 9"
    using assms(7,8) zdiv_mono1 [of n 9999 1000] by simp
  define b0 b1 b2 b3 b4 b5 b6 :: byte
    where "b0 = word_of_int (offset div 256)"
      and "b1 = word_of_int (offset mod 256)"
      and "b2 = word_of_int (16 * (rows div 100) + rows div 10 mod 10)"
      and "b3 = word_of_int (16 * (rows mod 10) + stitches div 100)"
      and "b4 = word_of_int (16 * (stitches div 10 mod 10) + stitches mod 10)"
      and "b5 = word_of_int (16 * (n div 1000) + n div 100 mod 10)"
      and "b6 = word_of_int (16 * (n div 10 mod 10) + n mod 10)"
  have eb: "entry_bytes offset rows stitches n = [b0, b1, b2, b3, b4, b5, b6]"
    unfolding entry_bytes_def b0_def b1_def b2_def b3_def b4_def b5_def b6_def ..
  have nib: "hi_nibble b2 = rows div 100" "lo_nibble b2 = rows div 10 mod 10"
    "hi_nibble b3 = rows mod 10" "lo_nibble b3 = stitches div 100"
    "hi_nibble b4 = stitches div 10 mod 10" "lo_nibble b4 = stitches mod 10"
    "hi_nibble b5 = n div 1000" "lo_nibble b5 = n div 100 mod 10"
    "hi_nibble b6 = n div 10 mod 10" "lo_nibble b6 = n mod 10"
    unfolding b2_def b3_def b4_def b5_def b6_def
    by (simp_all only: bcd_pair_nibbles r s n digit_range)
  have "256 * uint b0 + uint b1 = offset"
    unfolding b0_def b1_def using assms(1,2) by (rule word_of_two_bytes)
  then show "entry_offset (entry_bytes offset rows stitches n) = offset"
    by (simp add: entry_offset_def eb)
  show "entry_rows (entry_bytes offset rows stitches n) = rows"
    using digits3_value [of rows] by (simp add: entry_rows_def eb nib)
  show "entry_stitches (entry_bytes offset rows stitches n) = stitches"
    using digits3_value [of stitches] by (simp add: entry_stitches_def eb nib)
  show "entry_pattern_number (entry_bytes offset rows stitches n) = n"
    using digits4_value [of n] by (simp add: entry_pattern_number_def eb nib)
qed

lemma pat_num_entry_bytes:
  assumes "0 \<le> loc" and "take 7 (drop (nat loc) (data t)) = entry_bytes offset rows stitches n"
    and "0 \<le> n" "n \<le> 999"
  shows "pat_num t loc = Inr n"
proof -
  have z: "n div 1000 = 0" using assms(3,4) by simp
  have h: "0 \<le> n div 1000 \<and> n div 1000 \<le> 9" by (simp add: z)
  have "pat_num t loc =
      Inr (100 * lo_nibble (word_of_int (16 * (n div 1000) + n div 100 mod 10))
           + 10 * hi_nibble (word_of_int (16 * (n div 10 mod 10) + n mod 10))
           + lo_nibble (word_of_int (16 * (n div 10 mod 10) + n mod 10)))"
    using assms(1) assms(2) [unfolded entry_bytes_def]
    by (rule pat_num_at) (simp_all only: bcd_pair_nibbles h digit_range)
  also have "\<dots> = Inr (100 * (n div 100 mod 10) + 10 * (n div 10 mod 10) + n mod 10)"
    by (simp only: bcd_pair_nibbles h digit_range)
  also have "\<dots> = Inr n"
    using digits4_value [of n] z by simp
  finally show ?thesis .
qed

section \<open>Claims about the new track and the out-of-space error\<close>

lemma fresh_available: "available_offset \<lparr>data = fresh_data\<rparr> = Inr 288"
  using get_word_slice [of 1792 "\<lparr>data = fresh_data\<rparr>" 1 32]
  by (simp add: available_offset_def available_loc_def fresh_reads)

lemma fresh_info_end: "pgm_info_end \<lparr>data = fresh_data\<rparr> = Inr 2041"
  using get_word_slice [of 1808 "\<lparr>data = fresh_data\<rparr>" 7 249]
  by (simp add: pgm_info_end_def pgm_info_end_loc_def fresh_reads)

lemma fresh_free_mem: "free_mem \<lparr>data = fresh_data\<rparr> = Inr 1753"
  by (simp add: free_mem_def fresh_available fresh_info_end)

lemma fresh_first_word: "get_word \<lparr>data = fresh_data\<rparr> 0 = Inr 0"
  using get_word_of_entry [of 0 "\<lparr>data = fresh_data\<rparr>" 0 0 "[0, 0, 0, 9, 1]"]
  by (simp add: fresh_reads)

lemma fresh_first_number: "pat_num \<lparr>data = fresh_data\<rparr> 0 = Inr 901"
  using pat_num_at [of 0 "\<lparr>data = fresh_data\<rparr>" 0 0 0 0 0 9 1]
  by (simp add: fresh_reads lo_nibble_def hi_nibble_def)

lemma fresh_find:
  "find_empty_entry \<lparr>data = fresh_data\<rparr> (track_size - 2041) 0 initial_pattern_number
     = Inr (0, 901)"
  by (subst find_empty_entry.simps)
     (simp add: track_size_def initial_pattern_number_def fresh_first_word fresh_first_number)

text \<open>
  Claim C2, amended. Immediately after \<open>Track.__init__\<close>, which does not raise,
  \<open>free_mem()\<close> equals \<open>0x800 - 7 - 0x120 = 1753\<close>: the directory ends 7 bytes
  after the start of the buffer, at offset \<open>0x800 - 7\<close> from its end, and the
  available memory ends at offset \<open>0x120\<close>. The single directory entry present
  decodes to pattern number 901 with an offset field of 0.
\<close>

theorem Track_init_state:
  "fst Track_init = Inr ()
   \<and> free_mem (snd Track_init) = Inr (track_size - pgm_info_size - pattern_offset)
   \<and> free_mem (snd Track_init) = Inr 1753
   \<and> pgm_info_end (snd Track_init) = Inr (track_size - pgm_info_size)
   \<and> get_word (snd Track_init) 0 = Inr 0
   \<and> pat_num (snd Track_init) 0 = Inr 901
   \<and> entry_pattern_number (getslice (data (snd Track_init)) 0 pgm_info_size) = 901"
proof -
  have "getslice fresh_data 0 (0 + 7) = take (nat 7) (drop (nat 0) fresh_data)"
    by (rule getslice_absolute) (simp_all add: fresh_length)
  then have "getslice fresh_data 0 pgm_info_size = [0, 0, 0, 0, 0, 9, 1]"
    by (simp add: pgm_info_size_def fresh_reads)
  then show ?thesis
    by (simp add: Track_init_data fresh_free_mem fresh_info_end fresh_first_word
        fresh_first_number track_size_def pgm_info_size_def pattern_offset_def
        entry_pattern_number_def hi_nibble_def lo_nibble_def)
qed

text \<open>The claim as stated gives \<open>free_mem()\<close> as \<open>0x120 - 7 = 281\<close>.\<close>

theorem Track_init_state_counterexample:
  "free_mem (snd Track_init) \<noteq> Inr (0x120 - 7)"
  by (simp add: Track_init_data fresh_free_mem)

lemma free_mem_returns:
  assumes "nat track_size \<le> length (data t)"
  shows "\<exists>free. free_mem t = Inr free"
proof -
  have "getitem (data t) 1808 = Inr (data t ! 1808)" "getitem (data t) 1809 = Inr (data t ! 1809)"
    "getitem (data t) 1792 = Inr (data t ! 1792)" "getitem (data t) 1793 = Inr (data t ! 1793)"
    using assms by (simp_all add: getitem_def track_size_def)
  then show ?thesis
    by (simp add: free_mem_def pgm_info_end_def available_offset_def get_word_def
        pgm_info_end_loc_def available_loc_def)
qed

text \<open>
  Claim C3. When \<open>free_mem()\<close> returns \<open>free\<close>, \<open>add_pattern\<close> raises the
  out-of-space error if and only if the length of the pattern exceeds \<open>free\<close>, and
  when it raises this error the track is the one it was given: the buffer and with
  it \<open>available_offset()\<close> and \<open>pgm_info_end()\<close> are unchanged.
\<close>

theorem add_pattern_out_of_space:
  assumes "free_mem t = Inr free"
  shows "(fst (add_pattern t pattern nrows nstitches) = Inl Error_no_space)
           = (int (length pattern) > free)
       \<and> (fst (add_pattern t pattern nrows nstitches) = Inl Error_no_space
            \<longrightarrow> snd (add_pattern t pattern nrows nstitches) = t)"
proof (cases "int (length pattern) > free")
  case True
  then show ?thesis using assms by (simp add: add_pattern_def)
next
  case False
  then show ?thesis using add_pattern_accepted_error [OF assms False] by simp
qed

theorem add_pattern_out_of_space_witness:
  "free_mem (snd Track_init) = Inr 1753
   \<and> fst (add_pattern (snd Track_init) (replicate 1754 0) 1 1) = Inl Error_no_space
   \<and> snd (add_pattern (snd Track_init) (replicate 1754 0) 1 1) = snd Track_init
   \<and> fst (add_pattern (snd Track_init) (replicate 1753 0) 1 1) \<noteq> Inl Error_no_space"
proof -
  have f: "free_mem (snd Track_init) = Inr 1753"
    by (simp add: Track_init_data fresh_free_mem)
  show ?thesis
    using f add_pattern_out_of_space [OF f, of "replicate 1754 0" 1 1]
      add_pattern_out_of_space [OF f, of "replicate 1753 0" 1 1]
    by simp
qed

section \<open>What a successful call has done\<close>

lemma aligned_slot:
  fixes loc e m :: int
  assumes "e mod 7 = 0" "loc = 7 * m" "loc < e"
  shows "loc + 7 \<le> e"
proof -
  from assms(1) obtain q where q: "e = 7 * q" by (auto simp: mod_eq_0_iff_dvd)
  with assms(2,3) have "m < q" by simp
  then show ?thesis using assms(2) q by simp
qed

lemma add_pattern_success:
  assumes len: "length (data t) = 2048"
    and a: "available_offset t = Inr a" "288 \<le> a"
    and p: "pgm_info_end t = Inr p" "(2048 - p) mod 7 = 0"
    and r: "0 \<le> nrows" "nrows \<le> 999" and s: "0 \<le> nstitches" "nstitches \<le> 999"
    and succ: "add_pattern t pattern nrows nstitches = (Inr num, t')"
  shows "int (length pattern) \<le> p - a"
    and "find_empty_entry t (track_size - p) 0 initial_pattern_number = Inr (entry_loc num, num)"
    and "0 \<le> entry_loc num" and "entry_loc num + 7 \<le> 2048 - p" and "p < 2048"
    and "initial_pattern_number \<le> num" and "num \<le> 999"
    and "t' = t\<lparr>data := (if entry_loc num + 7 = 2048 - p
                  then extended (stored (data t) (entry_loc num) (entry_bytes a nrows nstitches num) a pattern) p (num + 1)
                  else stored (data t) (entry_loc num) (entry_bytes a nrows nstitches num) a pattern)\<rparr>"
proof -
  have fm: "free_mem t = Inr (p - a)"
    by (simp add: free_mem_def p a(1))
  show k: "int (length pattern) \<le> p - a"
  proof (rule ccontr)
    assume "\<not> ?thesis"
    then have "add_pattern t pattern nrows nstitches = (Inl Error_no_space, t)"
      by (simp add: add_pattern_def fm)
    with succ show False by simp
  qed
  obtain loc n where f: "find_empty_entry t (track_size - p) 0 initial_pattern_number = Inr (loc, n)"
  proof (cases "find_empty_entry t (track_size - p) 0 initial_pattern_number")
    case (Inl e)
    then have "add_pattern t pattern nrows nstitches = (Inl e, t)"
      using k by (simp add: add_pattern_def fm p(1))
    with succ show ?thesis by simp
  next
    case (Inr x)
    then show ?thesis using that by (cases x) simp
  qed
  from find_empty_entry_result [OF f]
  have loc: "0 \<le> loc" "loc < 2048 - p" "loc = 7 * (n - initial_pattern_number)"
    and pn: "pat_num t loc = Inr n" and n0: "initial_pattern_number \<le> n"
    by (auto simp: track_size_def)
  from pat_num_range [OF pn] have n: "0 \<le> n" "n \<le> 999" by simp_all
  have ar: "0 \<le> a" "a < 65536"
    using get_word_range [of t available_loc a] a(1) by (simp_all add: available_offset_def)
  have i: "program_info a nrows nstitches n = Inr (entry_bytes a nrows nstitches n)"
    using ar r s n by (intro program_info_entry) simp_all
  have al: "loc + 7 \<le> 2048 - p" using p(2) loc(3) loc(2) by (rule aligned_slot)
  have small: "loc + int (length (entry_bytes a nrows nstitches n)) \<le> 1792"
    using al k a(2) by simp
  from add_pattern_effect [OF len a(1,2) p(1) k f i small] succ
  have eq: "num = n"
    and t': "t' = t\<lparr>data := (if loc + 7 = 2048 - p
                  then extended (stored (data t) loc (entry_bytes a nrows nstitches n) a pattern) p (n + 1)
                  else stored (data t) loc (entry_bytes a nrows nstitches n) a pattern)\<rparr>"
    by simp_all
  have el: "entry_loc n = loc"
    by (simp add: entry_loc_def loc(3) pgm_info_size_def)
  show "find_empty_entry t (track_size - p) 0 initial_pattern_number = Inr (entry_loc num, num)"
    unfolding eq el by (rule f)
  show "0 \<le> entry_loc num" "entry_loc num + 7 \<le> 2048 - p" "p < 2048"
    unfolding eq el using loc al by simp_all
  show "initial_pattern_number \<le> num" "num \<le> 999" unfolding eq using n0 n by simp_all
  show "t' = t\<lparr>data := (if entry_loc num + 7 = 2048 - p
                  then extended (stored (data t) (entry_loc num) (entry_bytes a nrows nstitches num) a pattern) p (num + 1)
                  else stored (data t) (entry_loc num) (entry_bytes a nrows nstitches num) a pattern)\<rparr>"
    unfolding eq el by (rule t')
qed

lemma added_last_reads:
  assumes "length d = 2048" "288 \<le> a" "a + int (length pattern) \<le> p" "p < 2048"
    and "0 \<le> loc" "loc + 7 = 2048 - p" "length info = 7"
  shows "length (extended (stored d loc info a pattern) p m) = 2048"
    and "take 2 (drop 1792 (extended (stored d loc info a pattern) p m))
          = word_bytes (a + int (length pattern) + 1)"
    and "take 2 (drop 1808 (extended (stored d loc info a pattern) p m)) = word_bytes (p - 7)"
    and "take 7 (drop (nat loc) (extended (stored d loc info a pattern) p m)) = info"
    and "take 7 (drop (nat (2048 - p)) (extended (stored d loc info a pattern) p m)) = empty_entry m"
proof -
  have l: "length (stored d loc info a pattern) = 2048"
    using assms by (intro stored_length) simp_all
  have pr: "7 < p" "p \<le> 2048" "288 \<le> p" using assms(2,3,4) by simp_all
  show "length (extended (stored d loc info a pattern) p m) = 2048"
    using l pr(1,2) by (rule extended_length)
  have "take 2 (drop 1792 (extended (stored d loc info a pattern) p m))
      = take 2 (drop 1792 (stored d loc info a pattern))"
    using l pr(3,2) by (rule extended_available)
  also have "\<dots> = word_bytes (a + int (length pattern) + 1)"
    using assms by (intro stored_available) simp_all
  finally show "take 2 (drop 1792 (extended (stored d loc info a pattern) p m))
      = word_bytes (a + int (length pattern) + 1)" .
  show "take 2 (drop 1808 (extended (stored d loc info a pattern) p m)) = word_bytes (p - 7)"
    using l pr(1,2) by (rule extended_info_end)
  have "take 7 (drop (nat loc) (extended (stored d loc info a pattern) p m))
      = take 7 (drop (nat loc) (stored d loc info a pattern))"
    using l pr(3,2) assms(5,6) by (intro extended_below) simp_all
  also have "\<dots> = take 7 info"
    using assms by (intro stored_entry) simp_all
  finally show "take 7 (drop (nat loc) (extended (stored d loc info a pattern) p m)) = info"
    using assms(7) by simp
  show "take 7 (drop (nat (2048 - p)) (extended (stored d loc info a pattern) p m)) = empty_entry m"
    using extended_entry [OF l pr(3,2), of 7 m] by simp
qed

section \<open>Claims about adding a pattern\<close>

lemma fresh_add_pattern:
  assumes "length pattern \<le> 1753" "0 \<le> r" "r \<le> 999" "0 \<le> s" "s \<le> 999"
  shows "add_pattern \<lparr>data = fresh_data\<rparr> pattern r s =
     (Inr 901,
      \<lparr>data = extended (stored fresh_data 0 (entry_bytes 288 r s 901) 288 pattern) 2041 902\<rparr>)"
proof -
  have i: "program_info 288 r s 901 = Inr (entry_bytes 288 r s 901)"
    using assms by (intro program_info_entry) simp_all
  show ?thesis
    using add_pattern_effect [of "\<lparr>data = fresh_data\<rparr>" 288 2041 pattern 0 901 r s
        "entry_bytes 288 r s 901"] assms(1) i
    by (simp add: fresh_length fresh_available fresh_info_end fresh_find)
qed

lemma fresh_add_free_mem:
  assumes "length pattern \<le> 1753" "0 \<le> r" "r \<le> 999" "0 \<le> s" "s \<le> 999"
  shows "free_mem (snd (add_pattern \<lparr>data = fresh_data\<rparr> pattern r s))
     = Inr (1745 - int (length pattern))"
proof -
  let ?d = "extended (stored fresh_data 0 (entry_bytes 288 r s 901) 288 pattern) 2041 902"
  have k: "288 + int (length pattern) \<le> 2041" using assms(1) by simp
  note rd = added_last_reads [OF fresh_length _ k, of 0 "entry_bytes 288 r s 901" 902]
  have "get_word \<lparr>data = ?d\<rparr> 1792 = Inr (288 + int (length pattern) + 1)"
    using rd(2) assms(1) by (intro get_word_bytes) simp_all
  moreover have "get_word \<lparr>data = ?d\<rparr> 1808 = Inr (2041 - 7)"
    using rd(3) by (intro get_word_bytes) simp_all
  ultimately show ?thesis
    by (simp add: fresh_add_pattern [OF assms] free_mem_def pgm_info_end_def
        pgm_info_end_loc_def available_offset_def available_loc_def)
qed

text \<open>
  Claim C1, amended. Take a track with a 2048-byte buffer whose
  \<open>available_offset()\<close> is at least \<open>0x120\<close> and whose directory region is a whole
  number of 7-byte entries, row and stitch counts between 0 and 999, and a pattern
  of \<open>k\<close> bytes that \<open>add_pattern\<close> accepts and stores, returning a pattern
  number. Then the call reduces \<open>free_mem()\<close> by exactly \<open>k + 1\<close> when the slot it
  filled is followed by another entry, and by exactly \<open>k + 1 + 7\<close> when it filled
  the last slot and appended a new empty entry, as it does on a new track. The
  directory entry written for the new pattern decodes to the previous
  \<open>available_offset()\<close>, the given row count, the given stitch count and the
  returned pattern number, which \<open>pat_num\<close> reads back too.
\<close>

theorem add_pattern_free_mem_entry:
  assumes len: "length (data t) = nat track_size"
    and a: "available_offset t = Inr avail" "pattern_offset \<le> avail"
    and p: "pgm_info_end t = Inr info_offset"
      "(track_size - info_offset) mod pgm_info_size = 0"
    and r: "0 \<le> nrows" "nrows \<le> 999" and s: "0 \<le> nstitches" "nstitches \<le> 999"
    and succ: "add_pattern t pattern nrows nstitches = (Inr pattern_num, t')"
  shows "free_mem t = Inr (info_offset - avail)
       \<and> free_mem t' = Inr (info_offset - avail - (int (length pattern) + 1)
              - (if entry_loc pattern_num + pgm_info_size = track_size - info_offset
                 then pgm_info_size else 0))
       \<and> entry_offset (directory_entry t' pattern_num) = avail
       \<and> entry_rows (directory_entry t' pattern_num) = nrows
       \<and> entry_stitches (directory_entry t' pattern_num) = nstitches
       \<and> entry_pattern_number (directory_entry t' pattern_num) = pattern_num
       \<and> pat_num t' (entry_loc pattern_num) = Inr pattern_num"
proof -
  let ?k = "int (length pattern)"
  let ?loc = "entry_loc pattern_num"
  let ?info = "entry_bytes avail nrows nstitches pattern_num"
  let ?st = "stored (data t) ?loc ?info avail pattern"
  have len': "length (data t) = 2048" using len by (simp add: track_size_def)
  have a': "288 \<le> avail" using a(2) by (simp add: pattern_offset_def)
  have p': "(2048 - info_offset) mod 7 = 0"
    using p(2) by (simp add: track_size_def pgm_info_size_def)
  note f = add_pattern_success [OF len' a(1) a' p(1) p' r s succ]
  have k: "avail + ?k \<le> info_offset" using f(1) by simp
  have ar: "0 \<le> avail" "avail < 65536"
    using get_word_range [of t available_loc avail] a(1) by (simp_all add: available_offset_def)
  have nr: "0 \<le> pattern_num" "pattern_num \<le> 9999"
    using f(6,7) by (simp_all add: initial_pattern_number_def)
  have fm: "free_mem t = Inr (info_offset - avail)"
    by (simp add: free_mem_def p(1) a(1))
  have l': "length (data t') = 2048"
    and av': "take 2 (drop 1792 (data t')) = word_bytes (avail + ?k + 1)"
    and en': "take 7 (drop (nat ?loc) (data t')) = ?info"
    and ie': "get_word t' 1808 = Inr (if ?loc + 7 = 2048 - info_offset then info_offset - 7 else info_offset)"
  proof -
    show "length (data t') = 2048"
    proof (cases "?loc + 7 = 2048 - info_offset")
      case True
      then show ?thesis
        using added_last_reads(1) [OF len' a' k f(5) f(3) True, of ?info "pattern_num + 1"]
        by (simp add: f(8))
    next
      case False
      then show ?thesis
        using stored_length [OF len' f(3), of ?info avail pattern] f(4) f(5) k ar
        by (simp add: f(8))
    qed
    show "take 2 (drop 1792 (data t')) = word_bytes (avail + ?k + 1)"
    proof (cases "?loc + 7 = 2048 - info_offset")
      case True
      then show ?thesis
        using added_last_reads(2) [OF len' a' k f(5) f(3) True, of ?info "pattern_num + 1"]
        by (simp add: f(8))
    next
      case False
      then show ?thesis
        using stored_available [OF len' f(3), of ?info avail pattern] f(4) f(5) k ar
        by (simp add: f(8))
    qed
    show "take 7 (drop (nat ?loc) (data t')) = ?info"
    proof (cases "?loc + 7 = 2048 - info_offset")
      case True
      then show ?thesis
        using added_last_reads(4) [OF len' a' k f(5) f(3) True, of ?info "pattern_num + 1"]
        by (simp add: f(8))
    next
      case False
      then show ?thesis
        using stored_entry [OF len' f(3), of ?info avail pattern 7] f(4) f(5) k ar a'
        by (simp add: f(8))
    qed
    show "get_word t' 1808 = Inr (if ?loc + 7 = 2048 - info_offset then info_offset - 7 else info_offset)"
    proof (cases "?loc + 7 = 2048 - info_offset")
      case True
      have "get_word t' 1808 = Inr (info_offset - 7)"
        using added_last_reads(3) [OF len' a' k f(5) f(3) True, of ?info "pattern_num + 1"]
          a' k f(5)
        by (intro get_word_bytes) (simp_all add: f(8) True)
      then show ?thesis using True by simp
    next
      case False
      have "length ?st = 2048"
        using stored_length [OF len' f(3), of ?info avail pattern] f(4) f(5) k ar by simp
      moreover have "take 2 (drop 1808 ?st) = take 2 (drop 1808 (data t))"
        using stored_info_end [OF len' f(3), of ?info avail pattern] f(4) f(5) k a' by simp
      ultimately have "get_word (t\<lparr>data := ?st\<rparr>) 1808 = get_word t 1808"
        using len' by (intro get_word_cong) simp_all
      then show ?thesis
        using False p(1) by (simp add: f(8) pgm_info_end_def pgm_info_end_loc_def)
    qed
  qed
  have av: "available_offset t' = Inr (avail + ?k + 1)"
    unfolding available_offset_def available_loc_def
    using av' k f(5) ar by (intro get_word_bytes) simp_all
  have ie: "pgm_info_end t' = Inr (if ?loc + 7 = 2048 - info_offset then info_offset - 7 else info_offset)"
    unfolding pgm_info_end_def pgm_info_end_loc_def by (rule ie')
  have fm': "free_mem t' = Inr (info_offset - avail - (?k + 1)
              - (if ?loc + pgm_info_size = track_size - info_offset then pgm_info_size else 0))"
    by (simp add: free_mem_def av ie pgm_info_size_def track_size_def)
  have "getslice (data t') ?loc (?loc + 7) = take (nat 7) (drop (nat ?loc) (data t'))"
    using f(3,4) a' k l' by (intro getslice_absolute) simp_all
  then have de: "directory_entry t' pattern_num = ?info"
    by (simp add: directory_entry_def pgm_info_size_def en')
  have pn: "pat_num t' ?loc = Inr pattern_num"
    using f(3) en' nr(1) f(7) by (rule pat_num_entry_bytes)
  show ?thesis
    unfolding de using fm fm' pn entry_bytes_decode [OF ar r s nr] by simp
qed

theorem add_pattern_free_mem_entry_witness:
  "length (data (snd Track_init)) = nat track_size
   \<and> available_offset (snd Track_init) = Inr 288
   \<and> pgm_info_end (snd Track_init) = Inr 2041
   \<and> fst (add_pattern (snd Track_init) [1, 2, 3] 12 34) = Inr 901
   \<and> free_mem (snd (add_pattern (snd Track_init) [1, 2, 3] 12 34)) = Inr (1753 - (3 + 1) - 7)
   \<and> entry_offset (directory_entry (snd (add_pattern (snd Track_init) [1, 2, 3] 12 34)) 901) = 288
   \<and> entry_rows (directory_entry (snd (add_pattern (snd Track_init) [1, 2, 3] 12 34)) 901) = 12
   \<and> entry_stitches (directory_entry (snd (add_pattern (snd Track_init) [1, 2, 3] 12 34)) 901) = 34
   \<and> entry_pattern_number (directory_entry (snd (add_pattern (snd Track_init) [1, 2, 3] 12 34)) 901)
       = 901"
proof -
  let ?t = "\<lparr>data = fresh_data\<rparr>"
  let ?t' = "snd (add_pattern ?t [1, 2, 3] 12 34)"
  have ap: "add_pattern ?t [1, 2, 3] 12 34 = (Inr 901, ?t')"
    using fresh_add_pattern [of "[1, 2, 3]" 12 34] by simp
  have len: "length (data ?t) = nat track_size"
    by (simp add: fresh_length track_size_def)
  have th: "free_mem ?t = Inr (2041 - 288)
       \<and> free_mem ?t' = Inr (2041 - 288 - (int (length [1, 2, 3 :: byte]) + 1)
              - (if entry_loc 901 + pgm_info_size = track_size - 2041
                 then pgm_info_size else 0))
       \<and> entry_offset (directory_entry ?t' 901) = 288
       \<and> entry_rows (directory_entry ?t' 901) = 12
       \<and> entry_stitches (directory_entry ?t' 901) = 34
       \<and> entry_pattern_number (directory_entry ?t' 901) = 901
       \<and> pat_num ?t' (entry_loc 901) = Inr 901"
    by (rule add_pattern_free_mem_entry [OF len fresh_available _ fresh_info_end _ _ _ _ _ ap])
       (simp_all add: pattern_offset_def track_size_def pgm_info_size_def)
  have c: "entry_loc 901 + pgm_info_size = track_size - 2041"
    by (simp add: entry_loc_def initial_pattern_number_def pgm_info_size_def track_size_def)
  have fs: "fst (add_pattern ?t [1, 2, 3] 12 34) = Inr 901"
    using fresh_add_pattern [of "[1, 2, 3]" 12 34] by simp
  show ?thesis
    using th fs len unfolding c
    by (simp add: Track_init_data fresh_available fresh_info_end pgm_info_size_def)
qed

text \<open>
  The claim as stated has \<open>free_mem()\<close> go down by \<open>k + 1\<close> on every track. On a
  new track an empty pattern takes 8 bytes of it.
\<close>

theorem add_pattern_free_mem_entry_counterexample:
  "free_mem (snd Track_init) = Inr 1753
   \<and> fst (add_pattern (snd Track_init) [] 1 1) = Inr 901
   \<and> free_mem (snd (add_pattern (snd Track_init) [] 1 1)) = Inr (1753 - 8)
   \<and> free_mem (snd (add_pattern (snd Track_init) [] 1 1)) \<noteq> Inr (1753 - (int (length []) + 1))"
  using fresh_add_pattern [of "[]" 1 1] fresh_add_free_mem [of "[]" 1 1]
  by (simp add: Track_init_data fresh_free_mem)

text \<open>
  Claim C4, at the inputs where the program departs from it. \<open>free_mem()\<close> of a
  new track is 1753. A pattern of exactly 1753 bytes is accepted and pattern number
  901 is returned; afterwards \<open>free_mem()\<close> is \<open>-8\<close>, and bytes 7 to 13 of the
  buffer, the first seven bytes of the pattern just stored, hold the new empty entry
  for pattern number 902. The 1752 bytes that \<open>encode_image\<close> produces for an
  image of 9 by 876 pixels are accepted too and leave \<open>free_mem()\<close> at \<open>-7\<close>.
\<close>

theorem add_pattern_exact_fit:
  "free_mem (snd Track_init) = Inr 1753
   \<and> fst (add_pattern (snd Track_init) (replicate 1753 255) 1 1) = Inr 901
   \<and> free_mem (snd (add_pattern (snd Track_init) (replicate 1753 255) 1 1)) = Inr (- 8)
   \<and> getslice (data (snd (add_pattern (snd Track_init) (replicate 1753 255) 1 1))) 7 14
       = [0, 0, 0, 0, 0, 9, 2]
   \<and> fst (add_pattern (snd Track_init) (replicate 1752 0) 876 9) = Inr 901
   \<and> free_mem (snd (add_pattern (snd Track_init) (replicate 1752 0) 876 9)) = Inr (- 7)"
proof -
  let ?pat = "replicate 1753 (255 :: byte)"
  let ?d = "extended (stored fresh_data 0 (entry_bytes 288 1 1 901) 288 ?pat) 2041 902"
  have ap: "add_pattern \<lparr>data = fresh_data\<rparr> ?pat 1 1 = (Inr 901, \<lparr>data = ?d\<rparr>)"
    by (rule fresh_add_pattern) simp_all
  have fm: "free_mem (snd (add_pattern \<lparr>data = fresh_data\<rparr> ?pat 1 1)) = Inr (1745 - int (length ?pat))"
    by (rule fresh_add_free_mem) simp_all
  have rd: "length ?d = 2048" "take 7 (drop (nat (2048 - 2041)) ?d) = empty_entry 902"
    using added_last_reads(1,5) [OF fresh_length, of 288 ?pat 2041 0 "entry_bytes 288 1 1 901" 902]
    by simp_all
  have "getslice ?d 7 (7 + 7) = take (nat 7) (drop (nat 7) ?d)"
    using rd(1) by (intro getslice_absolute) simp_all
  then have gs: "getslice ?d 7 14 = [0, 0, 0, 0, 0, 9, 2]"
    using rd(2) by (simp add: empty_entry_def)
  have ap2: "fst (add_pattern \<lparr>data = fresh_data\<rparr> (replicate 1752 0) 876 9) = Inr 901"
    using fresh_add_pattern [of "replicate 1752 0" 876 9] by simp
  have fm2: "free_mem (snd (add_pattern \<lparr>data = fresh_data\<rparr> (replicate 1752 0) 876 9))
      = Inr (1745 - int (length (replicate 1752 (0 :: byte))))"
    by (rule fresh_add_free_mem) simp_all
  show ?thesis
    using fm gs ap2 fm2 by (simp add: Track_init_data fresh_free_mem ap)
qed

section \<open>The directory after a sequence of calls\<close>

text \<open>
  When every row and stitch count has at most three digits, each successful call
  returns the next pattern number and leaves a directory that lists the patterns
  stored so far, followed by one empty entry.
\<close>

lemma entry_loc_nth: "entry_loc (initial_pattern_number + int i) = 7 * int i"
  by (simp add: entry_loc_def pgm_info_size_def)

lemma directory_entry_slice:
  assumes "length (data t) = 2048" "7 * int i + 7 \<le> 2048"
  shows "directory_entry t (initial_pattern_number + int i) = take 7 (drop (7 * i) (data t))"
proof -
  have "getslice (data t) (7 * int i) (7 * int i + 7)
      = take (nat 7) (drop (nat (7 * int i)) (data t))"
    using assms by (intro getslice_absolute) simp_all
  moreover have "nat (7 * int i) = 7 * i" by simp
  ultimately show ?thesis
    by (simp add: directory_entry_def entry_loc_nth pgm_info_size_def)
qed

lemma directory_ok_fresh: "directory_ok \<lparr>data = fresh_data\<rparr> 0"
proof -
  have "directory_entry \<lparr>data = fresh_data\<rparr> (initial_pattern_number + int 0)
      = take 7 (drop (7 * 0) (data \<lparr>data = fresh_data\<rparr>))"
    by (rule directory_entry_slice) (simp_all add: fresh_length)
  then have "directory_entry \<lparr>data = fresh_data\<rparr> initial_pattern_number = empty_entry 901"
    by (simp add: fresh_reads empty_entry_def)
  then show ?thesis
    by (simp add: directory_ok_def fresh_length fresh_available fresh_info_end pattern_offset_def
        track_size_def pgm_info_size_def initial_pattern_number_def)
qed

lemma empty_entry_word:
  assumes "0 \<le> loc" and "take 7 (drop (nat loc) (data t)) = empty_entry m"
  shows "get_word t loc = Inr 0"
  using get_word_of_entry [OF assms(1), of t 0 0] assms(2) by (simp add: empty_entry_def)

lemma directory_ok_step:
  assumes ok: "directory_ok t n"
    and r: "0 \<le> nrows" "nrows \<le> 999" and s: "0 \<le> nstitches" "nstitches \<le> 999"
    and succ: "add_pattern t pattern nrows nstitches = (Inr num, t')"
  shows "num = initial_pattern_number + int n \<and> directory_ok t' (Suc n)"
proof -
  let ?k = "int (length pattern)"
  let ?p = "2048 - 7 * (int n + 1)"
  from ok have len: "length (data t) = 2048"
    and p: "pgm_info_end t = Inr ?p"
    and old: "list_all
          (\<lambda>i. pat_num t (entry_loc (initial_pattern_number + int i))
                 = Inr (initial_pattern_number + int i)
               \<and> get_word t (entry_loc (initial_pattern_number + int i)) \<noteq> Inr 0)
          [0..<n]"
    by (simp_all add: directory_ok_def track_size_def pgm_info_size_def)
  from ok obtain a where a: "available_offset t = Inr a" "288 \<le> a"
    by (auto simp: directory_ok_def pattern_offset_def split: sum.splits)
  have md: "(2048 - ?p) mod 7 = 0" by simp
  note f = add_pattern_success [OF len a p md r s succ]
  from find_empty_entry_result [OF f(2)]
  have gw: "get_word t (entry_loc num) = Inr 0" by blast
  define i where "i = nat (num - initial_pattern_number)"
  have num: "num = initial_pattern_number + int i" using f(6) by (simp add: i_def)
  have le: "i \<le> n" using f(4) unfolding num entry_loc_nth by simp
  have "\<not> i < n"
  proof
    assume "i < n"
    then have "get_word t (entry_loc (initial_pattern_number + int i)) \<noteq> Inr 0"
      using old by (simp add: list_all_iff)
    with gw show False by (simp add: num)
  qed
  with le have i: "i = n" by simp
  have numn: "num = initial_pattern_number + int n" using num i by simp
  have loc: "entry_loc num = 7 * int n" unfolding numn by (rule entry_loc_nth)
  let ?info = "entry_bytes a nrows nstitches num"
  let ?d = "extended (stored (data t) (7 * int n) ?info a pattern) ?p (num + 1)"
  have t': "t' = t\<lparr>data := ?d\<rparr>" using f(8) unfolding loc by simp
  have k: "a + ?k \<le> ?p" using f(1) by simp
  have pl: "?p < 2048" by simp
  have last: "7 * int n + 7 = 2048 - ?p" by simp
  have n0: "0 \<le> 7 * int n" by simp
  note rd = added_last_reads [OF len a(2) k pl n0 last
      length_entry_bytes [of a nrows nstitches num], of "num + 1"]
  have ar: "0 \<le> a" "a < 65536"
    using get_word_range [of t available_loc a] a(1) by (simp_all add: available_offset_def)
  have av: "available_offset t' = Inr (a + ?k + 1)"
    unfolding available_offset_def available_loc_def t'
    using rd(2) k ar by (intro get_word_bytes) simp_all
  have ie: "pgm_info_end t' = Inr (?p - 7)"
    unfolding pgm_info_end_def pgm_info_end_loc_def t'
    using rd(3) k a(2) by (intro get_word_bytes) simp_all
  have small: "7 * int n + int (length ?info) \<le> 1792"
    "7 * int n + int (length ?info) \<le> 2048 - (a + ?k)"
    using k a(2) by simp_all
  have keep: "take m (drop j ?d) = take m (drop j (data t))" if "int (j + m) \<le> 7 * int n" for j m
  proof -
    have l: "length (stored (data t) (7 * int n) ?info a pattern) = 2048"
      using len n0 small ar k by (intro stored_length) simp_all
    have "take m (drop j ?d) = take m (drop j (stored (data t) (7 * int n) ?info a pattern))"
      using l k a(2) that by (intro extended_below) simp_all
    also have "\<dots> = take m (drop j (data t))"
      using len n0 small ar k that by (intro stored_below) simp_all
    finally show ?thesis .
  qed
  have olds: "pat_num t' (entry_loc (initial_pattern_number + int j))
        = Inr (initial_pattern_number + int j)
      \<and> get_word t' (entry_loc (initial_pattern_number + int j)) \<noteq> Inr 0" if "j < n" for j
  proof -
    have b: "int (7 * j + 7) \<le> 7 * int n" "int (7 * j + 2) \<le> 7 * int n" using that by simp_all
    have jl: "nat (7 * int j) = 7 * j" by simp
    have fit: "7 * j + 7 \<le> 2048" using that k a(2) by simp
    have "pat_num t' (7 * int j) = pat_num t (7 * int j)"
      unfolding t' using keep [OF b(1)] rd(1) len fit
      by (intro pat_num_cong) (simp_all add: jl)
    moreover have "get_word t' (7 * int j) = get_word t (7 * int j)"
      unfolding t' using keep [OF b(2)] rd(1) len fit
      by (intro get_word_cong) (simp_all add: jl)
    ultimately show ?thesis
      using old that by (simp add: list_all_iff entry_loc_nth)
  qed
  have en: "take 7 (drop (nat (7 * int n)) (data t')) = ?info"
    unfolding t' using rd(4) by simp
  have pn: "pat_num t' (7 * int n) = Inr num"
    using n0 en f(6,7) by (intro pat_num_entry_bytes) (simp_all add: initial_pattern_number_def)
  have "entry_offset ?info = a"
    using ar r s f(6,7) by (intro entry_bytes_decode) (simp_all add: initial_pattern_number_def)
  then have "get_word t' (7 * int n) = Inr a"
    using get_word_of_entry [OF n0, of t'] en by (simp add: entry_bytes_def entry_offset_def)
  then have nz: "get_word t' (7 * int n) \<noteq> Inr 0" using a(2) by simp
  have new: "list_all
          (\<lambda>i. pat_num t' (entry_loc (initial_pattern_number + int i))
                 = Inr (initial_pattern_number + int i)
               \<and> get_word t' (entry_loc (initial_pattern_number + int i)) \<noteq> Inr 0)
          [0..<Suc n]"
    using olds pn nz by (simp add: list_all_iff entry_loc_nth numn less_Suc_eq)
  have l': "length (data t') = 2048" unfolding t' using rd(1) by simp
  have "directory_entry t' (initial_pattern_number + int (Suc n))
      = take 7 (drop (7 * Suc n) (data t'))"
    using l' k a(2) by (intro directory_entry_slice) simp_all
  also have "7 * Suc n = nat (2048 - ?p)" by simp
  also have "take 7 (drop (nat (2048 - ?p)) (data t')) = empty_entry (num + 1)"
    unfolding t' using rd(5) by simp
  also have "num + 1 = initial_pattern_number + int (Suc n)"
    using numn by simp
  finally have tr: "directory_entry t' (initial_pattern_number + int (Suc n))
      = empty_entry (initial_pattern_number + int (Suc n))" .
  have "directory_ok t' (Suc n)"
    unfolding directory_ok_def
    using l' av ie new tr a(2)
    by (simp add: pattern_offset_def track_size_def pgm_info_size_def algebra_simps)
  with numn show ?thesis by simp
qed

lemma add_patterns_sequential:
  assumes "directory_ok t n"
    and "list_all (\<lambda>(pattern, nrows, nstitches).
           0 \<le> nrows \<and> nrows \<le> 999 \<and> 0 \<le> nstitches \<and> nstitches \<le> 999) calls"
    and "add_patterns t calls = (Inr nums, t')"
  shows "nums = map (\<lambda>i. initial_pattern_number + int i) [n..<n + length calls]
       \<and> directory_ok t' (n + length calls)"
  using assms
proof (induction calls arbitrary: t n nums)
  case Nil
  then show ?case by simp
next
  case (Cons call calls)
  obtain pattern nrows nstitches where call: "call = (pattern, nrows, nstitches)"
    by (cases call) auto
  from Cons.prems(2) have rng: "0 \<le> nrows" "nrows \<le> 999" "0 \<le> nstitches" "nstitches \<le> 999"
    and rest: "list_all (\<lambda>(pattern, nrows, nstitches).
           0 \<le> nrows \<and> nrows \<le> 999 \<and> 0 \<le> nstitches \<and> nstitches \<le> 999) calls"
    by (simp_all add: call)
  from Cons.prems(3) obtain num t1 nums1
    where one: "add_pattern t pattern nrows nstitches = (Inr num, t1)"
      and more: "add_patterns t1 calls = (Inr nums1, t')"
      and nums: "nums = num # nums1"
    by (auto simp: call split: prod.splits sum.splits)
  from directory_ok_step [OF Cons.prems(1) rng one]
  have num: "num = initial_pattern_number + int n" and ok1: "directory_ok t1 (Suc n)"
    by simp_all
  from Cons.IH [OF ok1 rest more]
  have ih: "nums1 = map (\<lambda>i. initial_pattern_number + int i) [Suc n..<Suc n + length calls]"
    and ok': "directory_ok t' (Suc n + length calls)"
    by simp_all
  have "[n..<n + length (call # calls)] = n # [Suc n..<Suc n + length calls]"
    by (subst upt_rec) simp
  then show ?case using nums num ih ok' by simp
qed

lemma directory_ok_trailing_empty:
  assumes "directory_ok t n"
  shows "get_word t (entry_loc (initial_pattern_number + int n)) = Inr 0"
proof -
  from assms have len: "length (data t) = 2048"
    and p: "pgm_info_end t = Inr (2048 - 7 * (int n + 1))"
    and e: "directory_entry t (initial_pattern_number + int n)
      = empty_entry (initial_pattern_number + int n)"
    by (simp_all add: directory_ok_def track_size_def pgm_info_size_def)
  from get_word_range [of t pgm_info_end_loc] p have "0 \<le> 2048 - 7 * (int n + 1)"
    by (simp add: pgm_info_end_def)
  then have fit: "7 * int n + 7 \<le> 2048" by simp
  have nn: "nat (7 * int n) = 7 * n" by simp
  have "take 7 (drop (nat (7 * int n)) (data t)) = empty_entry (initial_pattern_number + int n)"
    unfolding nn using directory_entry_slice [OF len fit] e by simp
  then show ?thesis
    unfolding entry_loc_nth by (intro empty_entry_word) simp_all
qed

lemma new_track_sequential:
  assumes "list_all (\<lambda>(pattern, nrows, nstitches).
           0 \<le> nrows \<and> nrows \<le> 999 \<and> 0 \<le> nstitches \<and> nstitches \<le> 999) calls"
    and "add_patterns (snd Track_init) calls = (Inr nums, t')"
  shows "nums = map (\<lambda>i. initial_pattern_number + int i) [0..<length calls]
       \<and> directory_ok t' (length calls)
       \<and> get_word t' (entry_loc (initial_pattern_number + int (length calls))) = Inr 0"
proof -
  have start: "directory_ok (snd Track_init) 0"
    by (simp add: Track_init_data directory_ok_fresh)
  from add_patterns_sequential [OF start assms]
  have "nums = map (\<lambda>i. initial_pattern_number + int i) [0..<length calls]"
    and ok: "directory_ok t' (length calls)"
    by simp_all
  then show ?thesis using directory_ok_trailing_empty [OF ok] by simp
qed

lemma program_info_1500_rows:
  "program_info 288 1500 1 901 = Inr [1, 32, 1, 80, 0, 1, 9, 1]"
  by code_simp

text \<open>
  Claim C5, at the input where the program departs from it. With a row count of
  1500 the ten digits of an entry become eleven and the entry eight bytes. On a new
  track the call returns 901, but the directory still ends after its first entry,
  that entry is not empty (its offset field is 288) and its pattern number reads as
  109: there is no trailing empty entry, and the next call fails.
\<close>

theorem add_pattern_four_digit_rows:
  "fst (add_pattern (snd Track_init) (replicate 1500 0) 1500 1) = Inr 901
   \<and> pgm_info_end (snd (add_pattern (snd Track_init) (replicate 1500 0) 1500 1))
       = Inr (track_size - pgm_info_size)
   \<and> get_word (snd (add_pattern (snd Track_init) (replicate 1500 0) 1500 1)) 0 = Inr 288
   \<and> pat_num (snd (add_pattern (snd Track_init) (replicate 1500 0) 1500 1)) 0 = Inr 109
   \<and> fst (add_pattern (snd (add_pattern (snd Track_init) (replicate 1500 0) 1500 1)) [] 1 1)
       = Inl BadError_not_sequential"
proof -
  let ?info = "[1, 32, 1, 80, 0, 1, 9, 1] :: byte list"
  let ?pat = "replicate 1500 (0 :: byte)"
  let ?d = "stored fresh_data 0 ?info 288 ?pat"
  let ?t = "\<lparr>data = ?d\<rparr>"
  have ap: "add_pattern \<lparr>data = fresh_data\<rparr> ?pat 1500 1 = (Inr 901, ?t)"
    using add_pattern_effect [of "\<lparr>data = fresh_data\<rparr>" 288 2041 ?pat 0 901 1500 1 ?info]
    by (simp add: fresh_length fresh_available fresh_info_end fresh_find program_info_1500_rows)
  have l: "length ?d = 2048"
    using stored_length [OF fresh_length, of 0 ?info 288 ?pat] by simp
  have "take 2 (drop 1808 ?d) = take 2 (drop 1808 fresh_data)"
    using stored_info_end [OF fresh_length, of 0 ?info 288 ?pat] by simp
  then have "take 2 (drop (nat 1808) (data ?t)) = [7, 249]"
    by (simp add: fresh_reads)
  from get_word_slice [OF _ this] have ie: "pgm_info_end ?t = Inr 2041"
    by (simp add: pgm_info_end_def pgm_info_end_loc_def)
  have "take 2 (drop (nat 1792) (data ?t)) = word_bytes 1789"
    using stored_available [OF fresh_length, of 0 ?info 288 ?pat] by simp
  then have av: "available_offset ?t = Inr 1789"
    unfolding available_offset_def available_loc_def by (intro get_word_bytes) simp_all
  have en: "take 7 (drop (nat 0) (data ?t)) = [1, 32, 1, 80, 0, 1, 9]"
    using stored_entry [OF fresh_length, of 0 ?info 288 ?pat 7] by simp
  from get_word_of_entry [OF _ en] have gw: "get_word ?t 0 = Inr 288" by simp
  from pat_num_at [OF _ en] have pn: "pat_num ?t 0 = Inr 109"
    by (simp add: lo_nibble_def hi_nibble_def)
  have fe: "find_empty_entry ?t (track_size - 2041) 0 initial_pattern_number
      = Inl BadError_not_sequential"
    by (subst find_empty_entry.simps) (simp add: track_size_def initial_pattern_number_def pn)
  have "add_pattern ?t [] 1 1 = (Inl BadError_not_sequential, ?t)"
    unfolding add_pattern_def by (simp add: free_mem_def ie av fe)
  then show ?thesis
    using ie gw pn
    by (simp add: Track_init_data ap track_size_def pgm_info_size_def)
qed

section \<open>The image encoder against the bit layout\<close>

lemma getslice_middle:
  "getslice (pre @ row @ rest) (int (length pre)) (int (length pre) + int (length row)) = row"
proof -
  have "getslice (pre @ row @ rest) (int (length pre)) (int (length pre) + int (length row))
      = take (nat (int (length row))) (drop (nat (int (length pre))) (pre @ row @ rest))"
    by (rule getslice_absolute) simp_all
  then show ?thesis by simp
qed

lemma pad_rows_concat:
  assumes "0 < s" and "list_all (\<lambda>row. length row = s) rows"
  shows "pad_rows (pre @ concat rows) pad (int s) (int (length pre))
       = concat (map (\<lambda>row. pad @ row) rows)"
  using assms(2)
proof (induction rows arbitrary: pre)
  case Nil
  show ?case by (subst pad_rows.simps) simp
next
  case (Cons row rows)
  then have len: "length row = s" and rest: "list_all (\<lambda>row. length row = s) rows"
    by simp_all
  have lt: "int (length pre) < int (length (pre @ concat (row # rows)))"
    using len assms(1) by simp
  have sl: "getslice (pre @ concat (row # rows)) (int (length pre)) (int (length pre) + int s) = row"
    using getslice_middle [of pre row "concat rows"] len by simp
  have ih: "pad_rows ((pre @ row) @ concat rows) pad (int s) (int (length (pre @ row)))
      = concat (map (\<lambda>row. pad @ row) rows)"
    using rest by (rule Cons.IH)
  have nx: "int (length pre) + int s = int (length (pre @ row))" using len by simp
  have "pad_rows (pre @ concat (row # rows)) pad (int s) (int (length pre))
      = pad @ row @ pad_rows (pre @ concat (row # rows)) pad (int s) (int (length pre) + int s)"
    using lt assms(1) sl by (subst pad_rows.simps) simp
  also have "pad_rows (pre @ concat (row # rows)) pad (int s) (int (length pre) + int s)
      = concat (map (\<lambda>row. pad @ row) rows)"
    unfolding nx using ih by simp
  finally show ?case by simp
qed

lemma py_int2_bits:
  assumes "xs \<noteq> []"
  shows "py_int2 (map bit_char xs) = Inr (int (bits_value xs))"
proof -
  have ok: "list_all (\<lambda>c. c = CHR ''0'' \<or> c = CHR ''1'') (map bit_char xs)"
    by (induction xs) (simp_all add: bit_char_def)
  have "foldl (\<lambda>acc c. 2 * acc + (if c = CHR ''1'' then 1 else 0)) (int a) (map bit_char xs)
      = int (foldl (\<lambda>acc b. 2 * acc + (if b then 1 else 0)) a xs)" for a
  proof (induction xs arbitrary: a)
    case Nil
    show ?case by simp
  next
    case (Cons b xs)
    have "2 * int a + (if bit_char b = CHR ''1'' then 1 else 0)
        = int (2 * a + (if b then 1 else 0))"
      by (simp add: bit_char_def)
    then show ?case
      using Cons.IH [of "2 * a + (if b then 1 else 0)"] by (simp only: list.map foldl_Cons)
  qed
  from this [of 0] show ?thesis
    using assms ok by (simp add: py_int2_def bits_value_def)
qed

lemma bit_bytes_octets:
  assumes "(length bs - i) mod 8 = 0" and "i \<le> length bs"
  shows "bit_bytes (map bit_char bs) (int i) = Inr (map int (octets (drop i bs)))"
  using assms
proof (induction "length bs - i" arbitrary: i rule: less_induct)
  case less
  show ?case
  proof (cases "i < length bs")
    case False
    then show ?thesis
      using less.prems by (subst bit_bytes.simps, subst octets.simps) simp
  next
    case True
    then have ge: "i + 8 \<le> length bs" using less.prems(1) by presburger
    have sl: "getslice (map bit_char bs) (int i) (int i + 8) = map bit_char (take 8 (drop i bs))"
    proof -
      have "getslice (map bit_char bs) (int i) (int i + 8)
          = take (nat 8) (drop (nat (int i)) (map bit_char bs))"
        using ge by (intro getslice_absolute) simp_all
      then show ?thesis by (simp add: take_map drop_map)
    qed
    have ne: "take 8 (drop i bs) \<noteq> []" using True by simp
    have md: "(length bs - (i + 8)) mod 8 = 0" using ge less.prems(1) by presburger
    have ih: "bit_bytes (map bit_char bs) (int (i + 8)) = Inr (map int (octets (drop (i + 8) bs)))"
      using ge md True by (intro less.hyps) simp_all
    have oc: "octets (drop i bs) = bits_value (take 8 (drop i bs)) # octets (drop (i + 8) bs)"
      using True by (subst octets.simps) (simp add: add.commute)
    have "int i + 8 = int (i + 8)" by simp
    then show ?thesis
      using True ih
      by (subst bit_bytes.simps) (simp add: sl py_int2_bits [OF ne] oc)
  qed
qed

lemma neg_mod_nat:
  "0 < m \<Longrightarrow> nat ((- int n) mod int m) = (m - n mod m) mod m"
proof -
  assume m: "0 < m"
  have "(- int n) mod int m = (int m - int n mod int m) mod int m"
    by (metis minus_mod_self1 mod_diff_right_eq)
  also have "int m - int n mod int m = int (m - n mod m)"
    using m by (simp add: zmod_int less_imp_le)
  also have "int (m - n mod m) mod int m = int ((m - n mod m) mod m)"
    by (simp add: zmod_int)
  finally show ?thesis by simp
qed

lemma align_mod8: "((8 - n mod 8) mod 8 + n) mod 8 = (0::nat)"
proof -
  define q r where "q = n div 8" and "r = n mod 8"
  have n: "n = 8 * q + r" by (simp add: q_def r_def)
  have r: "r < 8" by (simp add: r_def)
  show ?thesis
  proof (cases "r = 0")
    case True
    then show ?thesis by (simp add: r_def [symmetric])
  next
    case False
    then have m: "(8 - r) mod 8 = 8 - r" by simp
    have "8 - r + n = 8 * (q + 1)" unfolding n using r by simp
    then have "(8 - r + n) mod 8 = 0" by simp
    then show ?thesis by (simp add: r_def [symmetric] m)
  qed
qed

lemma align_div8: "((8 - n mod 8) mod 8 + n + 7) div 8 = (n + 7) div (8::nat)"
proof -
  define q r where "q = n div 8" and "r = n mod 8"
  have n: "n = 8 * q + r" by (simp add: q_def r_def)
  have r: "r < 8" by (simp add: r_def)
  show ?thesis
  proof (cases "r = 0")
    case True
    then show ?thesis by (simp add: r_def [symmetric])
  next
    case False
    then have m: "(8 - r) mod 8 = 8 - r" by simp
    have e: "8 - r + n + 7 = 8 * (q + 1) + 7" unfolding n using r by simp
    have "(8 * (q + 1) + 7) div 8 = q + 1" by simp
    moreover have "(8 * q + r + 7) div 8 = q + 1" using r False by simp
    ultimately have "(8 - r + n + 7) div 8 = (n + 7) div 8" unfolding e using n by simp
    then show ?thesis by (simp add: r_def [symmetric] m)
  qed
qed

lemma ceil_div8_step: "0 < (n::nat) \<Longrightarrow> Suc ((n - 8 + 7) div 8) = (n + 7) div 8"
proof (cases "8 \<le> n")
  case True
  then obtain m where "n = m + 8" by (metis le_add_diff_inverse2)
  then show ?thesis by simp
next
  case False
  assume "0 < n"
  with False show ?thesis by simp
qed

lemma bits_value_bound: "bits_value xs < 2 ^ length xs"
proof -
  have "foldl (\<lambda>acc b. 2 * acc + (if b then 1 else 0)) a xs < (a + 1) * 2 ^ length xs" for a :: nat
  proof (induction xs arbitrary: a)
    case Nil
    show ?case by simp
  next
    case (Cons b xs)
    have "foldl (\<lambda>acc b. 2 * acc + (if b then 1 else 0)) (2 * a + (if b then 1 else 0)) xs
        < (2 * a + (if b then 1 else 0) + 1) * 2 ^ length xs"
      by (rule Cons.IH)
    also have "\<dots> \<le> (2 * a + 2) * 2 ^ length xs"
      by (rule mult_le_mono1) simp
    finally show ?case by (simp add: algebra_simps)
  qed
  from this [of 0] show ?thesis by (simp add: bits_value_def)
qed

lemma octets_bound: "list_all (\<lambda>v. v < 256) (octets bs)"
proof (induction bs rule: octets.induct)
  case (1 bs)
  show ?case
  proof (cases "bs = []")
    case True
    then show ?thesis by (subst octets.simps) simp
  next
    case False
    have "bits_value (take 8 bs) < 2 ^ length (take 8 bs)" by (rule bits_value_bound)
    also have "\<dots> \<le> 2 ^ 8" by (rule power_increasing) simp_all
    finally have "bits_value (take 8 bs) < 256" by simp
    with False 1 show ?thesis by (subst octets.simps) simp
  qed
qed

lemma length_octets: "length (octets bs) = (length bs + 7) div 8"
proof (induction bs rule: octets.induct)
  case (1 bs)
  show ?case
  proof (cases "bs = []")
    case True
    then show ?thesis by (subst octets.simps) simp
  next
    case False
    then have "0 < length bs" by simp
    then have "Suc ((length bs - 8 + 7) div 8) = (length bs + 7) div 8"
      by (rule ceil_div8_step)
    with False 1 show ?thesis by (subst octets.simps) simp
  qed
qed

lemma length_padded_rows:
  "list_all (\<lambda>row. length row = stitches) bitmap \<Longrightarrow>
   length (padded_rows bitmap stitches) = length bitmap * (stitches + row_padding stitches)"
  by (induction bitmap) (simp_all add: padded_rows_def)

lemma length_byte_align: "length (byte_align bs) mod 8 = 0"
  unfolding byte_align_def using align_mod8 [of "length bs"] by simp

lemma length_octets_align: "length (octets (byte_align bs)) = (length bs + 7) div 8"
proof -
  have "(length (byte_align bs) + 7) div 8 = (length bs + 7) div 8"
    unfolding byte_align_def using align_div8 [of "length bs"] by simp
  then show ?thesis by (simp add: length_octets)
qed

lemma bytearray_octets:
  "bytearray (map int (octets bs) @ replicate m 0) = Inr (map of_nat (octets bs) @ replicate m 0)"
proof -
  have "list_all (\<lambda>x. 0 \<le> x \<and> x < 256) (map int (octets bs) @ replicate m 0)"
    using octets_bound [of bs] by (auto simp: list_all_iff)
  then show ?thesis by (simp add: bytearray_def)
qed

lemma padded_rows_chars:
  "map bit_char (padded_rows bitmap stitches)
   = concat (map (\<lambda>row. replicate (row_padding stitches) CHR ''0'' @ row)
       (map (map pixel_bit) bitmap))"
proof -
  have pb: "bit_char (\<not> 0 < pixel) = pixel_bit pixel" for pixel :: int
    by (simp add: bit_char_def pixel_bit_def)
  have bf: "bit_char False = CHR ''0''"
    by (simp add: bit_char_def)
  show ?thesis
    by (simp add: padded_rows_def map_concat comp_def pb bf)
qed

text \<open>
  Claim C9. For every bitmap of rows that are all \<open>stitches\<close> pixels wide, with
  \<open>stitches\<close> positive, \<open>encode_image\<close> returns exactly \<open>encoded_bitmap\<close>: each
  row's bits in order with \<open>(4 - stitches mod 4) mod 4\<close> zero bits before them, the
  rows concatenated, zero bits put in front up to a multiple of 8, eight bits per
  byte with the most significant first, then \<open>ceil(rows / 2)\<close> zero bytes; it
  returns the row and stitch counts unchanged, and the output has
  \<open>ceil(rows * (stitches + padding) / 8) + ceil(rows / 2)\<close> bytes.
\<close>

theorem encode_image_layout:
  assumes "0 < stitches" and "list_all (\<lambda>row. length row = stitches) bitmap"
  shows "encode_image (concat bitmap) (int (length bitmap)) (int stitches)
           = Inr (encoded_bitmap bitmap stitches, int (length bitmap), int stitches)
       \<and> length (encoded_bitmap bitmap stitches)
           = (length bitmap * (stitches + row_padding stitches) + 7) div 8
             + (length bitmap + 1) div 2"
proof -
  let ?bools = "padded_rows bitmap stitches"
  have rp: "nat ((- int stitches) mod 4) = row_padding stitches"
    using neg_mod_nat [of 4 stitches] by (simp add: row_padding_def)
  have rows: "list_all (\<lambda>row. length row = stitches) (map (map pixel_bit) bitmap)"
    using assms(2) by (simp add: list_all_iff)
  have "pad_rows ([] @ concat (map (map pixel_bit) bitmap))
          (replicate (row_padding stitches) CHR ''0'') (int stitches) (int (length ([] :: string)))
      = concat (map (\<lambda>row. replicate (row_padding stitches) CHR ''0'' @ row)
          (map (map pixel_bit) bitmap))"
    using assms(1) rows by (rule pad_rows_concat)
  then have b0: "pad_rows (map pixel_bit (concat bitmap))
          (replicate (row_padding stitches) CHR ''0'') (int stitches) 0 = map bit_char ?bools"
    by (simp add: map_concat padded_rows_chars)
  have al: "nat ((- int (length (map bit_char ?bools))) mod 8) = (8 - length ?bools mod 8) mod 8"
    using neg_mod_nat [of 8 "length ?bools"] by simp
  have bits: "replicate (nat ((- int (length (map bit_char ?bools))) mod 8)) CHR ''0''
        @ map bit_char ?bools = map bit_char (byte_align ?bools)"
    unfolding al by (simp add: byte_align_def bit_char_def)
  have bb: "bit_bytes (map bit_char (byte_align ?bools)) (int 0)
      = Inr (map int (octets (drop 0 (byte_align ?bools))))"
    by (rule bit_bytes_octets) (simp_all add: length_byte_align)
  have memo: "nat ((int (length bitmap) + 1) div 2) = (length bitmap + 1) div 2"
    by (simp add: nat_div_distrib nat_add_distrib)
  have enc: "encode_image (concat bitmap) (int (length bitmap)) (int stitches)
      = Inr (encoded_bitmap bitmap stitches, int (length bitmap), int stitches)"
    unfolding encode_image_def Let_def rp b0 bits memo
    using assms(1) bb by (simp add: bytearray_octets encoded_bitmap_def)
  have "length (encoded_bitmap bitmap stitches)
      = (length ?bools + 7) div 8 + (length bitmap + 1) div 2"
    by (simp add: encoded_bitmap_def length_octets_align)
  then show ?thesis using enc length_padded_rows [OF assms(2)] by simp
qed

lemma encoded_bitmap_example: "encoded_bitmap [[0, 255, 0], [255, 0, 0]] 3 = [0x53, 0]"
  by code_simp

theorem encode_image_layout_witness:
  "(0::nat) < 3
   \<and> list_all (\<lambda>row. length row = 3) [[0, 255, 0], [255, 0, 0 :: int]]
   \<and> encode_image (concat [[0, 255, 0], [255, 0, 0]])
         (int (length [[0, 255, 0], [255, 0, 0 :: int]])) (int 3)
       = Inr (encoded_bitmap [[0, 255, 0], [255, 0, 0]] 3,
              int (length [[0, 255, 0], [255, 0, 0 :: int]]), int 3)
   \<and> encoded_bitmap [[0, 255, 0], [255, 0, 0]] 3 = [0x53, 0]"
proof -
  have h1: "(0::nat) < 3" by simp
  have h2: "list_all (\<lambda>row. length row = 3) [[0, 255, 0], [255, 0, 0 :: int]]" by simp
  show ?thesis
    using h1 h2 encode_image_layout [OF h1 h2] encoded_bitmap_example by blast
qed

section \<open>The sector identifier files\<close>

lemma pack_two_digits:
  assumes "0 \<le> hi \<and> hi \<le> 9" "0 \<le> lo \<and> lo \<le> 9"
  shows "pack_nibbles [hi, lo] = Inr [word_of_int (16 * hi + lo)]"
  using assms by (simp add: pack_nibbles_def bytearray_def push_bit_eq_mult)

text \<open>
  Claim C6, amended. For every track number \<open>T\<close> from 1 to 99, \<open>Track.write\<close>
  writes the two halves of the buffer to \<open>N.dat\<close> and \<open>(N+1).dat\<close> and then two
  identifier files \<open>N.id\<close> and \<open>(N+1).id\<close>, with \<open>N = (T - 1) * 2\<close> in two
  digits, that are each exactly 12 bytes long: the first byte is the nibble-packed
  two-digit BCD encoding of \<open>T\<close> and the remaining 11 bytes are zero. For
  \<open>T = 1\<close> the first byte of each is \<open>0x01\<close>.
\<close>

theorem track_write_id_files:
  assumes "1 \<le> track_num" and "track_num \<le> 99"
  shows "track_write path_join t sector_path track_num =
     ([(path_join sector_path (format_0d 2 ((track_num - 1) * 2)) @ ''.dat'',
          getslice (data t) 0 (track_size div 2)),
       (path_join sector_path (format_0d 2 ((track_num - 1) * 2 + 1)) @ ''.dat'',
          getslice (data t) (track_size div 2) (int (length (data t)))),
       (path_join sector_path (format_0d 2 ((track_num - 1) * 2)) @ ''.id'',
          word_of_int (16 * (track_num div 10) + track_num mod 10) # replicate 11 0),
       (path_join sector_path (format_0d 2 ((track_num - 1) * 2 + 1)) @ ''.id'',
          word_of_int (16 * (track_num div 10) + track_num mod 10) # replicate 11 0)],
      None)
   \<and> length (word_of_int (16 * (track_num div 10) + track_num mod 10) # replicate 11 (0 :: byte)) = 12
   \<and> hi_nibble (word_of_int (16 * (track_num div 10) + track_num mod 10)) = track_num div 10
   \<and> lo_nibble (word_of_int (16 * (track_num div 10) + track_num mod 10)) = track_num mod 10"
proof -
  have nn: "0 \<le> track_num" using assms(1) by simp
  have d: "0 \<le> track_num div 10 \<and> track_num div 10 \<le> 9"
    using assms zdiv_mono1 [of track_num 99 10] by simp
  have p: "pack_nibbles (to_bcd track_num 2)
      = Inr [word_of_int (16 * (track_num div 10) + track_num mod 10)]"
    unfolding to_bcd_2 [OF nn assms(2)] using d digit_range by (rule pack_two_digits)
  note nib = bcd_pair_nibbles [OF d digit_range, of track_num]
  show ?thesis
    unfolding track_write_def Let_def p nib by simp
qed

lemma format_sector_names: "format_0d 2 0 = ''00''" "format_0d 2 1 = ''01''"
  by code_simp+

theorem track_write_id_files_witness:
  "(1::int) \<le> 1 \<and> (1::int) \<le> 99
   \<and> drop 2 (fst (track_write posix_join (snd Track_init) ''disc'' 1))
       = [(''disc/00.id'', [0x01, 0, 0, 0, 0, 0, 0, 0, 0, 0, 0, 0]),
          (''disc/01.id'', [0x01, 0, 0, 0, 0, 0, 0, 0, 0, 0, 0, 0])]
   \<and> snd (track_write posix_join (snd Track_init) ''disc'' 1) = None"
proof -
  have z: "replicate 11 (0 :: byte) = [0, 0, 0, 0, 0, 0, 0, 0, 0, 0, 0]"
    by (simp add: numeral_eq_Suc)
  show ?thesis
    using track_write_id_files [of 1 posix_join "snd Track_init" "''disc''"]
    by (simp add: format_sector_names posix_join_def z)
qed

text \<open>The claim as stated makes each identifier file 13 bytes long.\<close>

theorem track_write_id_files_counterexample:
  "map (length \<circ> snd) (drop 2 (fst (track_write posix_join (snd Track_init) ''disc'' 1))) = [12, 12]
   \<and> map (length \<circ> snd) (drop 2 (fst (track_write posix_join (snd Track_init) ''disc'' 1))) \<noteq> [13, 13]"
proof -
  have p: "pack_nibbles (to_bcd 1 2) = Inr [1]"
    using pack_two_digits [of 0 1] by (simp add: to_bcd_2)
  show ?thesis
    unfolding track_write_def Let_def p by simp
qed

end
